theory Spec2Isabelle
  imports Main "HOL-Library.Word"
begin

unbundle bit_operations_syntax

section \<open>C values\<close>

text \<open>
  A C string is modelled by the list of its bytes before the terminating NUL, a byte by
  a \<^typ>\<open>char\<close>. Pointer arguments are modelled by the strings they point to: every
  call site of the program passes an element of \<open>argv\<close>, a literal or the result of
  another string function, never a null pointer (the one exception, \<open>argv[4]\<close> in the
  \<open>clean\<close> branch of \<open>main\<close>, is modelled there).

  Whether plain \<open>char\<close> is signed is left to the C implementation (signed on x86,
  unsigned on ARM Linux), so it is a parameter \<open>sg\<close> of the functions that depend on
  it. \<open>unsigned\<close> has 32 bits and \<open>unsigned long\<close> 64 bits (LP64).
\<close>

definition char_as_int :: "bool \<Rightarrow> char \<Rightarrow> int" where
  \<comment> \<open>the value of an object of type \<open>char\<close> holding the byte, after integer promotion\<close>
  "char_as_int sg ch =
     (if sg \<and> (128 :: int) \<le> of_char ch then of_char ch - 256 else of_char ch)"

definition to_unsigned :: "int \<Rightarrow> nat" where
  \<comment> \<open>the conversion \<open>(unsigned)v\<close>\<close>
  "to_unsigned v = nat (v mod 2 ^ 32)"

fun print_u :: "nat \<Rightarrow> string" where
  \<comment> \<open>what the conversion specification \<open>%u\<close> prints\<close>
  "print_u n =
     (if n < 10 then [char_of (48 + n)]
      else print_u (n div 10) @ [char_of (48 + n mod 10)])"

declare print_u.simps [simp del]

definition snprintf_esc :: "nat \<Rightarrow> string" where
  \<comment> \<open>\<open>snprintf(esc, 5, "%%%u", v)\<close>: at most four characters are stored before the NUL\<close>
  "snprintf_esc v = take 4 (CHR ''%'' # print_u v)"

definition c_first :: "string \<Rightarrow> char" where
  \<comment> \<open>\<open>s[0]\<close>: the terminator when the string is empty\<close>
  "c_first s = (case s of [] \<Rightarrow> CHR 0x00 | c # _ \<Rightarrow> c)"

definition is_digit :: "char \<Rightarrow> bool" where
  \<comment> \<open>the ASCII digits\<close>
  "is_digit c \<longleftrightarrow> 48 \<le> (of_char c :: nat) \<and> (of_char c :: nat) \<le> 57"

section \<open>The string buffer\<close>

text \<open>
  \<open>str_buffer_t\<close>: the field \<open>size\<close> of the source is \<open>size_buf\<close> here. The bytes
  of \<open>str\<close> before its terminator are the list \<open>str\<close>. A failing \<open>realloc\<close> aborts
  the process; lengths stay far below the range of \<open>int\<close> and \<open>size_t\<close>, so they are
  natural numbers.
\<close>

record str_buffer_t =
  str :: string
  size_buf :: nat
  len :: nat

definition str_buffer_extend :: "str_buffer_t \<Rightarrow> nat \<Rightarrow> str_buffer_t" where
  "str_buffer_extend buffer inc_len =
     (let new_len = len buffer + inc_len in
      if size_buf buffer > 1 \<and> new_len < size_buf buffer - 1 then buffer
      else buffer\<lparr>size_buf := new_len + 16 + new_len div 2\<rparr>)"

definition str_buffer_join :: "str_buffer_t \<Rightarrow> string \<Rightarrow> str_buffer_t" where
  "str_buffer_join buffer s =
     (let b = str_buffer_extend buffer (length s) in
      b\<lparr>str := take (len b) (str b) @ s, len := len b + length s\<rparr>)"

definition str_buffer_join_char :: "str_buffer_t \<Rightarrow> char \<Rightarrow> str_buffer_t" where
  "str_buffer_join_char buffer ch =
     (let b = str_buffer_extend buffer 1 in
      b\<lparr>str := take (len b) (str b) @ [ch], len := len b + 1\<rparr>)"

definition empty_buffer :: str_buffer_t where
  \<comment> \<open>\<open>str_buffer_t buffer = {0, 0, 0}\<close>\<close>
  "empty_buffer = \<lparr>str = [], size_buf = 0, len = 0\<rparr>"

section \<open>Joining paths\<close>

text \<open>
  \<open>str_join_path(arg, ..., 0)\<close>: the first argument and the list of the variadic
  arguments before the terminating null pointer.
\<close>

fun str_join_path_loop :: "str_buffer_t \<Rightarrow> string list \<Rightarrow> str_buffer_t" where
  "str_join_path_loop buffer [] = buffer"
| "str_join_path_loop buffer (s # rest) =
     str_join_path_loop
       (str_buffer_join
          (if (len buffer = 0 \<or> str buffer ! (len buffer - 1) \<noteq> CHR ''/'')
              \<and> c_first s \<noteq> CHR ''/''
           then str_buffer_join buffer ''/'' else buffer)
          s)
       rest"

definition str_join_path :: "string \<Rightarrow> string list \<Rightarrow> string" where
  "str_join_path arg ss = str (str_join_path_loop (str_buffer_join empty_buffer arg) ss)"

section \<open>The identifier encoder and the shard router\<close>

definition escaped :: "bool \<Rightarrow> char \<Rightarrow> bool" where
  \<comment> \<open>the condition of the \<open>if\<close> in \<open>encode_id\<close>\<close>
  "escaped sg ch \<longleftrightarrow>
     char_as_int sg ch < 32 \<or> ch = CHR ''*'' \<or> ch = CHR ''?'' \<or> ch = CHR ''/''
     \<or> ch = CHR 0x5C \<or> ch = CHR 0x22 \<or> ch = CHR 0x27 \<or> ch = CHR ''%''"

fun encode_id_loop :: "bool \<Rightarrow> str_buffer_t \<Rightarrow> string \<Rightarrow> str_buffer_t" where
  "encode_id_loop sg buffer [] = buffer"
| "encode_id_loop sg buffer (ch # rest) =
     encode_id_loop sg
       (if escaped sg ch
        then str_buffer_join buffer (snprintf_esc (to_unsigned (char_as_int sg ch)))
        else str_buffer_join_char buffer ch)
       rest"

definition encode_id :: "bool \<Rightarrow> string \<Rightarrow> string" where
  "encode_id sg ident =
     str (encode_id_loop sg (str_buffer_extend empty_buffer (length ident)) ident)"

definition base :: nat where
  \<comment> \<open>\<open>unsigned base = ('z' - 'a')\<close>\<close>
  "base = of_char CHR ''z'' - of_char CHR ''a''"

fun subdir_hash :: "64 word \<Rightarrow> string \<Rightarrow> 64 word" where
  \<comment> \<open>the \<open>while\<close> loop of \<open>get_subdir_for_id\<close>\<close>
  "subdir_hash s [] = s"
| "subdir_hash s (c # rest) =
     (let ch = (of_char c :: 8 word);
          s1 = (ucast (drop_bit 24 s) :: 8 word)
      in subdir_hash (push_bit 8 s + ucast (ch XOR s1)) rest)"

fun subdir_letters :: "nat \<Rightarrow> 64 word \<Rightarrow> string" where
  \<comment> \<open>the \<open>for\<close> loop of \<open>get_subdir_for_id\<close>, with the number of rounds left\<close>
  "subdir_letters 0 s = []"
| "subdir_letters (Suc n) s =
     char_of (unat (s mod of_nat base) + of_char CHR ''a'') # subdir_letters n (s div of_nat base)"

definition get_subdir_for_id :: "string \<Rightarrow> string" where
  "get_subdir_for_id ident = subdir_letters 4 (subdir_hash 0 ident)"

section \<open>The path resolver\<close>

record cache_entry_path_t =
  dirname :: string
  filename :: string
  relpath :: string
  fullpath :: string
  dirfullpath :: string

definition cache_id_to_path :: "bool \<Rightarrow> string \<Rightarrow> string \<Rightarrow> cache_entry_path_t" where
  "cache_id_to_path sg cache_path cache_id =
     (let fname = encode_id sg cache_id;
          dname = get_subdir_for_id cache_id;
          rel = str_join_path dname [fname]
      in \<lparr>dirname = dname, filename = fname, relpath = rel,
          fullpath = str_join_path cache_path [rel],
          dirfullpath = str_join_path cache_path [dname]\<rparr>)"

section \<open>The file system and the system calls\<close>

text \<open>
  The file system is a map from canonical paths to nodes: a directory or a regular file
  with its bytes. A path name is resolved to its canonical path by splitting it at the
  separators and dropping empty components and \<open>.\<close>, and a component \<open>..\<close> together
  with the component before it: \<open>/c/abcd/.\<close> is the directory \<open>/c/abcd\<close>. (There are
  no symbolic links, hard links or mount points, and the directory before a \<open>..\<close> is
  taken to exist.) Two path names are the same file when their canonical paths are
  equal. A descriptor is identified with the path it was opened at.

  Every call of the system can fail for reasons outside the program (permissions, a
  full disk, a signal), and a read or a write can be short. The world therefore holds
  a list of faults: each call takes the next one, and an empty list means that the
  call proceeds on its own. A call that proceeds fails only where the file system as
  modelled makes it fail (a missing file, an existing one). The world also keeps a
  trace: the calls made so far, each with the file system as the call left it.
\<close>

type_synonym path = "bool \<times> string list"

fun components :: "string \<Rightarrow> string \<Rightarrow> string list" where
  \<comment> \<open>the components of a path name, with the component being read\<close>
  "components cur [] = [cur]"
| "components cur (c # cs) =
     (if c = CHR ''/'' then cur # components [] cs else components (cur @ [c]) cs)"

definition enter :: "bool \<Rightarrow> string list \<Rightarrow> string \<Rightarrow> string list" where
  \<comment> \<open>one component further from the directory reached; \<open>..\<close> stays at the root\<close>
  "enter absolute dir c =
     (if c = [] \<or> c = ''.'' then dir
      else if c = ''..''
      then (if dir \<noteq> [] \<and> last dir \<noteq> ''..'' then butlast dir
            else if absolute then dir else dir @ [c])
      else dir @ [c])"

definition canon :: "string \<Rightarrow> path" where
  \<comment> \<open>whether the path name is absolute, and the names from the root or from the working
      directory\<close>
  "canon p =
     (c_first p = CHR ''/'', foldl (enter (c_first p = CHR ''/'')) [] (components [] p))"

datatype errno = ENOENT | EEXIST | EINTR | EISDIR | ENOTDIR | EACCES | EIO | ENOMEM

datatype node = Dir | File string

datatype syscall =
    Stat string | Mkdir string | Unlink string | Open_rdonly string | Malloc
  | Open_creat_excl string | Read_from | Write_to string | Close_from | Close_to string
  | Close_stray | Rename string string | Open_creat_append string | Flock string

datatype fault = Proceed | Fail errno | Short nat

record world =
  files :: "path \<rightharpoonup> node"
  faults :: "fault list"
  trace :: "(syscall \<times> (path \<rightharpoonup> node)) list"

definition next_fault :: "world \<Rightarrow> fault" where
  "next_fault w = (case faults w of [] \<Rightarrow> Proceed | f # _ \<Rightarrow> f)"

definition called :: "syscall \<Rightarrow> (path \<rightharpoonup> node) \<Rightarrow> world \<Rightarrow> world" where
  \<comment> \<open>the world after a call that leaves the file system \<open>fs\<close>\<close>
  "called c fs w = \<lparr>files = fs, faults = tl (faults w), trace = trace w @ [(c, fs)]\<rparr>"

definition sys_stat :: "string \<Rightarrow> world \<Rightarrow> (errno + node) \<times> world" where
  "sys_stat p w =
     ((case next_fault w of
         Fail e \<Rightarrow> Inl e
       | _ \<Rightarrow> (case files w (canon p) of None \<Rightarrow> Inl ENOENT | Some n \<Rightarrow> Inr n)),
      called (Stat p) (files w) w)"

definition sys_mkdir :: "string \<Rightarrow> world \<Rightarrow> (errno + unit) \<times> world" where
  "sys_mkdir p w =
     (case next_fault w of
        Fail e \<Rightarrow> (Inl e, called (Mkdir p) (files w) w)
      | _ \<Rightarrow>
         (case files w (canon p) of
            Some _ \<Rightarrow> (Inl EEXIST, called (Mkdir p) (files w) w)
          | None \<Rightarrow> (Inr (), called (Mkdir p) ((files w)(canon p \<mapsto> Dir)) w)))"

definition sys_unlink :: "string \<Rightarrow> world \<Rightarrow> (errno + unit) \<times> world" where
  "sys_unlink p w =
     (case next_fault w of
        Fail e \<Rightarrow> (Inl e, called (Unlink p) (files w) w)
      | _ \<Rightarrow>
         (case files w (canon p) of
            None \<Rightarrow> (Inl ENOENT, called (Unlink p) (files w) w)
          | Some Dir \<Rightarrow> (Inl EISDIR, called (Unlink p) (files w) w)
          | Some (File _) \<Rightarrow> (Inr (), called (Unlink p) ((files w)(canon p := None)) w)))"

definition sys_open_rdonly :: "string \<Rightarrow> world \<Rightarrow> (errno + node) \<times> world" where
  \<comment> \<open>\<open>open(from, O_RDONLY)\<close>: the descriptor is the node read, with the bytes still to be read\<close>
  "sys_open_rdonly p w =
     ((case next_fault w of
         Fail e \<Rightarrow> Inl e
       | _ \<Rightarrow> (case files w (canon p) of None \<Rightarrow> Inl ENOENT | Some n \<Rightarrow> Inr n)),
      called (Open_rdonly p) (files w) w)"

definition sys_malloc :: "world \<Rightarrow> bool \<times> world" where
  \<comment> \<open>\<open>malloc(buf_size)\<close>: whether the result is not null\<close>
  "sys_malloc w =
     ((case next_fault w of Fail e \<Rightarrow> False | _ \<Rightarrow> True), called Malloc (files w) w)"

definition sys_open_creat_excl :: "string \<Rightarrow> world \<Rightarrow> (errno + unit) \<times> world" where
  \<comment> \<open>\<open>open(to, O_WRONLY | O_CREAT | O_EXCL, 0666)\<close>\<close>
  "sys_open_creat_excl p w =
     (case next_fault w of
        Fail e \<Rightarrow> (Inl e, called (Open_creat_excl p) (files w) w)
      | _ \<Rightarrow>
         (case files w (canon p) of
            Some _ \<Rightarrow> (Inl EEXIST, called (Open_creat_excl p) (files w) w)
          | None \<Rightarrow> (Inr (), called (Open_creat_excl p) ((files w)(canon p \<mapsto> File [])) w)))"

definition sys_read :: "node \<Rightarrow> nat \<Rightarrow> world \<Rightarrow> (errno + string \<times> node) \<times> world" where
  \<comment> \<open>\<open>read(fd_from, buf, n)\<close>: the bytes read and the descriptor after them; with bytes
      left to read and \<open>n\<close> positive, at least one byte is read\<close>
  "sys_read src n w =
     ((case next_fault w of
         Fail e \<Rightarrow> Inl e
       | f \<Rightarrow>
          (case src of
             Dir \<Rightarrow> Inl EISDIR
           | File rest \<Rightarrow>
               (let k = (case f of Short m \<Rightarrow> min (Suc m) (min n (length rest))
                                 | _ \<Rightarrow> min n (length rest))
                in Inr (take k rest, File (drop k rest))))),
      called Read_from (files w) w)"

definition append_to :: "path \<Rightarrow> string \<Rightarrow> (path \<rightharpoonup> node) \<Rightarrow> (path \<rightharpoonup> node)" where
  "append_to p bytes fs =
     (case fs p of Some (File c) \<Rightarrow> fs(p \<mapsto> File (c @ bytes)) | _ \<Rightarrow> fs)"

definition sys_write :: "string \<Rightarrow> string \<Rightarrow> world \<Rightarrow> (errno + nat) \<times> world" where
  \<comment> \<open>\<open>write(fd_to, out_ptr, nread)\<close> on the file opened at \<open>p\<close>: the number of bytes written\<close>
  "sys_write p bytes w =
     (case next_fault w of
        Fail e \<Rightarrow> (Inl e, called (Write_to p) (files w) w)
      | f \<Rightarrow>
         (let k = (case f of Short m \<Rightarrow> min m (length bytes) | _ \<Rightarrow> length bytes)
          in (Inr k, called (Write_to p) (append_to (canon p) (take k bytes) (files w)) w)))"

definition sys_close_from :: "world \<Rightarrow> world" where
  \<comment> \<open>\<open>close(fd_from)\<close>, whose result the program ignores\<close>
  "sys_close_from w = called Close_from (files w) w"

definition sys_close_to :: "string \<Rightarrow> world \<Rightarrow> (errno + unit) \<times> world" where
  "sys_close_to p w =
     ((case next_fault w of Fail e \<Rightarrow> Inl e | _ \<Rightarrow> Inr ()), called (Close_to p) (files w) w)"

definition sys_rename :: "string \<Rightarrow> string \<Rightarrow> world \<Rightarrow> (errno + unit) \<times> world" where
  "sys_rename old new w =
     (case next_fault w of
        Fail e \<Rightarrow> (Inl e, called (Rename old new) (files w) w)
      | _ \<Rightarrow>
         (case files w (canon old) of
            None \<Rightarrow> (Inl ENOENT, called (Rename old new) (files w) w)
          | Some n \<Rightarrow>
              if canon old = canon new then (Inr (), called (Rename old new) (files w) w)
              else if n \<noteq> Dir \<and> files w (canon new) = Some Dir
              then (Inl EISDIR, called (Rename old new) (files w) w)
              else if n = Dir \<and> files w (canon new) \<noteq> None \<and> files w (canon new) \<noteq> Some Dir
              then (Inl ENOTDIR, called (Rename old new) (files w) w)
              else (Inr (), called (Rename old new) ((files w)(canon new \<mapsto> n, canon old := None)) w)))"

definition sys_open_creat_append :: "string \<Rightarrow> world \<Rightarrow> (errno + unit) \<times> world" where
  \<comment> \<open>\<open>open(lock_path, O_WRONLY | O_APPEND | O_CREAT, 0666)\<close>\<close>
  "sys_open_creat_append p w =
     (case next_fault w of
        Fail e \<Rightarrow> (Inl e, called (Open_creat_append p) (files w) w)
      | _ \<Rightarrow>
         (case files w (canon p) of
            Some Dir \<Rightarrow> (Inl EISDIR, called (Open_creat_append p) (files w) w)
          | Some (File _) \<Rightarrow> (Inr (), called (Open_creat_append p) (files w) w)
          | None \<Rightarrow> (Inr (), called (Open_creat_append p) ((files w)(canon p \<mapsto> File [])) w)))"

definition sys_flock :: "string \<Rightarrow> world \<Rightarrow> (errno + unit) \<times> world" where
  \<comment> \<open>\<open>flock(lock_fd, LOCK_EX)\<close>; no other process is modelled, so the call does not wait\<close>
  "sys_flock p w =
     ((case next_fault w of Fail e \<Rightarrow> Inl e | _ \<Rightarrow> Inr ()), called (Flock p) (files w) w)"

section \<open>The copy primitive\<close>

text \<open>
  The repository holds two copies of the program: \<open>src/afilecache.c\<close> and a later
  one. They differ in \<open>cp\<close> (below) and in \<open>command_delete\<close>.
\<close>

datatype version = Src_afilecache_c | Other_copy

definition buf_size :: nat where
  "buf_size = 4096 * 64"

text \<open>
  The inner \<open>do ... while (nread > 0)\<close> loop of \<open>cp\<close>, entered with the bytes read and
  not yet written: \<open>True\<close> when all of them are written, \<open>False\<close> at
  \<open>goto out_error\<close>. A short write or \<open>EINTR\<close> comes from the list of faults only, so
  the loop ends.
\<close>

function cp_write :: "string \<Rightarrow> string \<Rightarrow> world \<Rightarrow> bool \<times> world" where
  "cp_write to pending w =
     (case sys_write to pending w of
        (Inr nwritten, w') \<Rightarrow>
          if nwritten < length pending then cp_write to (drop nwritten pending) w'
          else (True, w')
      | (Inl e, w') \<Rightarrow>
          if e \<noteq> EINTR then (False, w')
          else if length pending > 0 then cp_write to pending w'
          else (True, w'))"
  by pat_completeness auto

termination
proof (relation "measure (\<lambda>(to, pending, w). length (faults w))")
  show "wf (measure (\<lambda>(to, pending, w). length (faults w)))" by simp
next
  fix to pending w x nwritten w'
  assume "(x, w') = sys_write to pending w" "x = Inr nwritten" "nwritten < length pending"
  then show "((to, drop nwritten pending, w'), (to, pending, w))
      \<in> measure (\<lambda>(to, pending, w). length (faults w))"
    by (cases "faults w")
      (auto simp add: sys_write_def next_fault_def called_def Let_def split: fault.splits)
next
  fix to pending w x e w'
  assume "(x, w') = sys_write to pending w" "x = Inl e" "\<not> e \<noteq> EINTR" "0 < length pending"
  then show "((to, pending, w'), (to, pending, w))
      \<in> measure (\<lambda>(to, pending, w). length (faults w))"
    by (cases "faults w")
      (auto simp add: sys_write_def next_fault_def called_def Let_def split: fault.splits)
qed

text \<open>
  The outer \<open>while (nread = read(...), nread > 0)\<close> loop: how the loop is left, with
  \<open>nread\<close> zero (end of file), with \<open>nread\<close> negative (a failed read), or through
  \<open>goto out_error\<close> in the inner loop.
\<close>

datatype copied = Nread_zero | Nread_negative | Out_error

function cp_loop :: "string \<Rightarrow> node \<Rightarrow> world \<Rightarrow> copied \<times> world" where
  "cp_loop to src w =
     (case sys_read src buf_size w of
        (Inl e, w') \<Rightarrow> (Nread_negative, w')
      | (Inr (chunk, src'), w') \<Rightarrow>
          if length chunk > 0
          then (case cp_write to chunk w' of
                  (False, w'') \<Rightarrow> (Out_error, w'')
                | (True, w'') \<Rightarrow> cp_loop to src' w'')
          else (Nread_zero, w'))"
  by pat_completeness auto

termination
proof (relation "measure (\<lambda>(to, src, w). case src of Dir \<Rightarrow> 0 | File rest \<Rightarrow> length rest)")
  show "wf (measure (\<lambda>(to, src, w). case src of Dir \<Rightarrow> 0 | File rest \<Rightarrow> length rest))"
    by simp
next
  fix to src w x w' y chunk src' z w''
  assume "(x, w') = sys_read src buf_size w" "x = Inr y" "(chunk, src') = y" "0 < length chunk"
  then show "((to, src', w''), (to, src, w))
      \<in> measure (\<lambda>(to, src, w). case src of Dir \<Rightarrow> 0 | File rest \<Rightarrow> length rest)"
    by (cases src)
      (auto simp add: sys_read_def Let_def split: fault.splits if_splits)
qed

declare cp_write.simps [simp del] cp_loop.simps [simp del]

text \<open>
  In \<open>src/afilecache.c\<close> the descriptor \<open>fd_to\<close> is declared without a value, so when
  \<open>malloc\<close> fails, \<open>out_error\<close> tests whatever the variable holds: the environment
  chooses (a fault stands for a negative value), and when the value is not negative
  the program closes a descriptor that \<open>cp\<close> never opened (the lock's, perhaps). No file
  is changed by that. The other copy of the program sets \<open>fd_to\<close> to -1 first.
\<close>

definition close_indeterminate :: "world \<Rightarrow> world" where
  \<comment> \<open>\<open>if (fd_to >= 0) close(fd_to)\<close> with \<open>fd_to\<close> never assigned\<close>
  "close_indeterminate w =
     (case next_fault w of
        Fail e \<Rightarrow> w\<lparr>faults := tl (faults w)\<rparr>
      | _ \<Rightarrow> called Close_stray (files w) w)"

text \<open>\<open>cp(to, from)\<close>: 0 or -1.\<close>

definition cp :: "version \<Rightarrow> string \<Rightarrow> string \<Rightarrow> world \<Rightarrow> int \<times> world" where
  "cp v to from w =
     (case sys_open_rdonly from w of
        (Inl e, w1) \<Rightarrow> (- 1, w1)
      | (Inr src, w1) \<Rightarrow>
          (case sys_malloc w1 of
             (False, w2) \<Rightarrow>
               (- 1, case v of
                       Src_afilecache_c \<Rightarrow> close_indeterminate (sys_close_from w2)
                     | Other_copy \<Rightarrow> sys_close_from w2)
           | (True, w2) \<Rightarrow>
               (case sys_open_creat_excl to w2 of
                  (Inl e, w3) \<Rightarrow> (- 1, sys_close_from w3)
                | (Inr _, w3) \<Rightarrow>
                    (case cp_loop to src w3 of
                       (Nread_zero, w4) \<Rightarrow>
                         (case sys_close_to to w4 of
                            (Inl e, w5) \<Rightarrow> (- 1, sys_close_from w5)
                          | (Inr _, w5) \<Rightarrow> (0, sys_close_from w5))
                     | (_, w4) \<Rightarrow> (- 1, snd (sys_close_to to (sys_close_from w4)))))))"

section \<open>The commands\<close>

definition RET_USAGE :: int where "RET_USAGE = 1"

definition RET_MISS :: int where "RET_MISS = 2"

definition RET_INTERNAL :: int where "RET_INTERNAL = 3"

definition RET_NO_CACHE_DIR :: int where "RET_NO_CACHE_DIR = 4"

definition RET_FILE_OPS :: int where "RET_FILE_OPS = 5"

definition RET_LOCK :: int where "RET_LOCK = 6"

definition tmpfilename :: "cache_entry_path_t \<Rightarrow> string" where
  \<comment> \<open>\<open>str_join_path(cache_entry_path.dirfullpath, ".?tmpfile", 0)\<close>\<close>
  "tmpfilename p = str_join_path (dirfullpath p) [''.?tmpfile'']"

definition put_rename :: "cache_entry_path_t \<Rightarrow> world \<Rightarrow> int \<times> world" where
  \<comment> \<open>the last step of \<open>command_put\<close>\<close>
  "put_rename p w =
     (case sys_rename (tmpfilename p) (fullpath p) w of
        (Inl e, w') \<Rightarrow> (RET_FILE_OPS, w')
      | (Inr _, w') \<Rightarrow> (0, w'))"

definition put_copy ::
  "version \<Rightarrow> cache_entry_path_t \<Rightarrow> string \<Rightarrow> world \<Rightarrow> int \<times> world"
where
  \<comment> \<open>\<open>command_put\<close> from the removal of the stale temporary file on\<close>
  "put_copy v p source_file_path w =
     (case sys_unlink (tmpfilename p) w of
        (Inl e, w1) \<Rightarrow>
          if e \<noteq> ENOENT then (RET_FILE_OPS, w1)
          else (case cp v (tmpfilename p) source_file_path w1 of
                  (r, w2) \<Rightarrow> if r < 0 then (RET_FILE_OPS, w2) else put_rename p w2)
      | (Inr _, w1) \<Rightarrow>
          (case cp v (tmpfilename p) source_file_path w1 of
             (r, w2) \<Rightarrow> if r < 0 then (RET_FILE_OPS, w2) else put_rename p w2))"

definition command_put ::
  "version \<Rightarrow> bool \<Rightarrow> string \<Rightarrow> string \<Rightarrow> string \<Rightarrow> world \<Rightarrow> int \<times> world"
where
  "command_put v sg cache_path cache_id source_file_path w =
     (let p = cache_id_to_path sg cache_path cache_id in
      case sys_stat (dirfullpath p) w of
        (Inl e, w1) \<Rightarrow>
          (case sys_mkdir (dirfullpath p) w1 of
             (Inl e', w2) \<Rightarrow> (RET_FILE_OPS, w2)
           | (Inr _, w2) \<Rightarrow> put_copy v p source_file_path w2)
      | (Inr n, w1) \<Rightarrow>
          if n \<noteq> Dir then (RET_FILE_OPS, w1) else put_copy v p source_file_path w1)"

definition command_get ::
  "version \<Rightarrow> bool \<Rightarrow> string \<Rightarrow> string \<Rightarrow> string \<Rightarrow> world \<Rightarrow> int \<times> world"
where
  "command_get v sg cache_path cache_id source_file_path w =
     (let p = cache_id_to_path sg cache_path cache_id in
      case sys_stat (fullpath p) w of
        (Inl e, w1) \<Rightarrow> (RET_MISS, w1)
      | (Inr n, w1) \<Rightarrow>
          (case sys_unlink source_file_path w1 of
             (Inl e, w2) \<Rightarrow>
               if e \<noteq> ENOENT then (RET_FILE_OPS, w2)
               else (case cp v source_file_path (fullpath p) w2 of
                       (r, w3) \<Rightarrow>
                         if r < 0 then (RET_FILE_OPS, snd (sys_unlink source_file_path w3))
                         else (0, w3))
           | (Inr _, w2) \<Rightarrow>
               (case cp v source_file_path (fullpath p) w2 of
                  (r, w3) \<Rightarrow>
                    if r < 0 then (RET_FILE_OPS, snd (sys_unlink source_file_path w3))
                    else (0, w3))))"

text \<open>
  \<open>command_delete\<close> differs between the two copies of the program: in
  \<open>src/afilecache.c\<close> a missing entry is a success, in the other copy (whose usage text
  documents exit code 2 for a missing identifier) it is a miss.
\<close>

definition command_delete :: "bool \<Rightarrow> string \<Rightarrow> string \<Rightarrow> world \<Rightarrow> int \<times> world" where
  \<comment> \<open>\<open>src/afilecache.c\<close>\<close>
  "command_delete sg cache_path cache_id w =
     (let p = cache_id_to_path sg cache_path cache_id in
      case sys_unlink (fullpath p) w of
        (Inl e, w1) \<Rightarrow> if e \<noteq> ENOENT then (RET_FILE_OPS, w1) else (0, w1)
      | (Inr _, w1) \<Rightarrow> (0, w1))"

definition command_delete_2 :: "bool \<Rightarrow> string \<Rightarrow> string \<Rightarrow> world \<Rightarrow> int \<times> world" where
  \<comment> \<open>the other copy of the program\<close>
  "command_delete_2 sg cache_path cache_id w =
     (let p = cache_id_to_path sg cache_path cache_id in
      case sys_unlink (fullpath p) w of
        (Inl e, w1) \<Rightarrow> if e = ENOENT then (RET_MISS, w1) else (RET_FILE_OPS, w1)
      | (Inr _, w1) \<Rightarrow> (0, w1))"

definition command_clean :: "string \<Rightarrow> int \<Rightarrow> world \<Rightarrow> int \<times> world" where
  "command_clean cache_path max_size_mb w = (RET_INTERNAL, w)"

section \<open>The program\<close>

text \<open>
  \<open>argv\<close> is the list of the \<open>argc\<close> arguments; \<open>argv[argc]\<close> is a null pointer.
  \<open>atoi\<close> of a null pointer is undefined behaviour (a crash, in practice).
\<close>

datatype outcome = Exit int | Undefined_behaviour

definition arg :: "string list \<Rightarrow> nat \<Rightarrow> string option" where
  \<comment> \<open>\<open>argv[i]\<close> for \<open>i\<close> up to \<open>argc\<close>: \<open>None\<close> is the null pointer\<close>
  "arg argv i = (if i < length argv then Some (argv ! i) else None)"

definition isspace :: "char \<Rightarrow> bool" where
  "isspace c \<longleftrightarrow> c = CHR '' '' \<or> (9 \<le> (of_char c :: nat) \<and> (of_char c :: nat) \<le> 13)"

definition atoi_digits :: "string \<Rightarrow> int" where
  "atoi_digits s = foldl (\<lambda>a c. 10 * a + (of_char c - 48)) 0 (takeWhile is_digit s)"

definition atoi :: "string \<Rightarrow> int" where
  \<comment> \<open>for a number in the range of \<open>int\<close>\<close>
  "atoi s =
     (case dropWhile isspace s of
        [] \<Rightarrow> 0
      | c # rest \<Rightarrow>
          if c = CHR ''-'' then - atoi_digits rest
          else if c = CHR ''+'' then atoi_digits rest
          else atoi_digits (c # rest))"

definition run_command ::
  "version \<Rightarrow> bool \<Rightarrow> string \<Rightarrow> string \<Rightarrow> string \<Rightarrow> string \<Rightarrow> int \<Rightarrow> world \<Rightarrow> outcome \<times> world"
where
  \<comment> \<open>\<open>main\<close> after the arguments are read\<close>
  "run_command v sg cache_path command cache_id source_file_path max_size_mb w =
     (case sys_stat cache_path w of
        (Inl e, w1) \<Rightarrow> (Exit RET_NO_CACHE_DIR, w1)
      | (Inr n, w1) \<Rightarrow>
          if n \<noteq> Dir then (Exit RET_NO_CACHE_DIR, w1)
          else
            (let lock_path = str_join_path cache_path [''.lock''] in
             case sys_open_creat_append lock_path w1 of
               (Inl e, w2) \<Rightarrow> (Exit RET_FILE_OPS, w2)
             | (Inr _, w2) \<Rightarrow>
                 (case sys_flock lock_path w2 of
                    (Inl e, w3) \<Rightarrow> (Exit RET_LOCK, w3)
                  | (Inr _, w3) \<Rightarrow>
                      (let (r, w4) =
                         (if command = ''put''
                          then command_put v sg cache_path cache_id source_file_path w3
                          else if command = ''get''
                          then command_get v sg cache_path cache_id source_file_path w3
                          else if command = ''delete''
                          then (case v of
                                  Src_afilecache_c \<Rightarrow> command_delete sg cache_path cache_id w3
                                | Other_copy \<Rightarrow> command_delete_2 sg cache_path cache_id w3)
                          else if command = ''clean''
                          then command_clean cache_path max_size_mb w3
                          else (RET_INTERNAL, w3))
                       in (Exit r, w4)))))"

definition main :: "version \<Rightarrow> bool \<Rightarrow> string list \<Rightarrow> world \<Rightarrow> outcome \<times> world" where
  "main v sg argv w =
     (let argc = length argv in
      if \<not> argc \<ge> 3 then (Exit RET_USAGE, w)
      else
        (let cache_path = argv ! 1; command = argv ! 2 in
         if \<not> (cache_path \<noteq> [] \<and> command \<noteq> []) then (Exit RET_USAGE, w)
         else if command = ''put'' \<or> command = ''get''
         then
           (if \<not> argc = 5 then (Exit RET_USAGE, w)
            else
              (let cache_id = argv ! 3; source_file_path = argv ! 4 in
               if \<not> (source_file_path \<noteq> [] \<and> cache_id \<noteq> []) then (Exit RET_USAGE, w)
               else run_command v sg cache_path command cache_id source_file_path 0 w))
         else if command = ''delete''
         then
           (if \<not> argc = 4 then (Exit RET_USAGE, w)
            else
              (let cache_id = argv ! 3 in
               if \<not> cache_id \<noteq> [] then (Exit RET_USAGE, w)
               else run_command v sg cache_path command cache_id [] 0 w))
         else if command = ''clean''
         then
           (if \<not> argc = 4 then (Exit RET_USAGE, w)
            else
              (case arg argv 4 of
                 None \<Rightarrow> (Undefined_behaviour, w)
               | Some a \<Rightarrow> run_command v sg cache_path command [] [] (atoi a) w))
         else (Exit RET_USAGE, w)))"

section \<open>Notions for the statements\<close>

text \<open>The buffer invariant: \<open>len\<close> is the length of the string held.\<close>

definition wf_buffer :: "str_buffer_t \<Rightarrow> bool" where
  "wf_buffer b \<longleftrightarrow> len b = length (str b)"

text \<open>What \<open>str_join_path\<close> puts between its first argument and the next one.\<close>

definition separator :: "string \<Rightarrow> string \<Rightarrow> string" where
  "separator l r =
     (if (l = [] \<or> last l \<noteq> CHR ''/'') \<and> c_first r \<noteq> CHR ''/'' then ''/'' else [])"

text \<open>What one round of the loop of \<open>encode_id\<close> appends for a byte.\<close>

definition encode_byte :: "bool \<Rightarrow> char \<Rightarrow> string" where
  "encode_byte sg ch =
     (if escaped sg ch then snprintf_esc (to_unsigned (char_as_int sg ch)) else [ch])"



text \<open>
  The encoder as the specification words it: a byte below the space character or one of
  the reserved characters becomes a percent sign and the decimal value of the byte; any
  other byte stays.
\<close>

definition control :: "char \<Rightarrow> bool" where
  "control c \<longleftrightarrow> (of_char c :: nat) < of_char CHR '' ''"

definition reserved :: "char \<Rightarrow> bool" where
  "reserved c \<longleftrightarrow> c \<in> {CHR ''*'', CHR ''?'', CHR ''/'', CHR 0x5C, CHR 0x22, CHR 0x27, CHR ''%''}"

definition encode_byte_spec :: "char \<Rightarrow> string" where
  "encode_byte_spec c =
     (if control c \<or> reserved c then CHR ''%'' # print_u (of_char c) else [c])"

definition encode_id_spec :: "string \<Rightarrow> string" where
  "encode_id_spec ident = concat (map encode_byte_spec ident)"

text \<open>
  No byte of the identifier is negative as a plain \<open>char\<close>: all bytes are below 128, or
  plain \<open>char\<close> is unsigned.
\<close>

definition plain_chars :: "bool \<Rightarrow> string \<Rightarrow> bool" where
  "plain_chars sg ident \<longleftrightarrow> list_all (\<lambda>c. 0 \<le> char_as_int sg c) ident"

text \<open>
  In the identifier a byte below 10, whose escape has one digit, is followed at once
  by an ASCII digit.
\<close>

fun digit_after_small_byte :: "string \<Rightarrow> bool" where
  "digit_after_small_byte (a # b # rest) =
     (((of_char a :: nat) < 10 \<and> is_digit b) \<or> digit_after_small_byte (b # rest))"
| "digit_after_small_byte _ = False"

text \<open>
  The shard router as the specification words it, on natural numbers, with the choice
  of the eight bits that are combined with the byte left open: \<open>top8\<close> are the top
  eight bits of a 64-bit accumulator, \<open>bits_24_31\<close> its bits 24 to 31.
\<close>

definition top8 :: "nat \<Rightarrow> nat" where
  "top8 acc = acc div 2 ^ 56"

definition bits_24_31 :: "nat \<Rightarrow> nat" where
  "bits_24_31 acc = acc div 2 ^ 24 mod 2 ^ 8"

definition shard_step :: "(nat \<Rightarrow> nat) \<Rightarrow> nat \<Rightarrow> char \<Rightarrow> nat" where
  "shard_step pick acc c = (acc * 2 ^ 8 + (of_char c XOR pick acc)) mod 2 ^ 64"

definition shard_accumulate :: "(nat \<Rightarrow> nat) \<Rightarrow> string \<Rightarrow> nat" where
  "shard_accumulate pick ident = foldl (shard_step pick) 0 ident"

definition shard_letter :: "nat \<Rightarrow> nat \<Rightarrow> char" where
  "shard_letter acc i = char_of (of_char CHR ''a'' + acc div 25 ^ i mod 25)"

definition shard_name :: "(nat \<Rightarrow> nat) \<Rightarrow> string \<Rightarrow> string" where
  "shard_name pick ident = map (shard_letter (shard_accumulate pick ident)) [0, 1, 2, 3]"

text \<open>A cache root \<open>/c\<close> with nothing in it, and no faults to come.\<close>

definition empty_cache :: world where
  "empty_cache = \<lparr>files = [canon ''/c'' \<mapsto> Dir], faults = [], trace = []\<rparr>"

text \<open>
  The steps of a run from the world \<open>w\<close> to the world \<open>w'\<close>: the calls made, each with
  the file system it left.
\<close>

definition steps_since :: "world \<Rightarrow> world \<Rightarrow> (syscall \<times> (path \<rightharpoonup> node)) list" where
  "steps_since w w' = drop (length (trace w)) (trace w')"

text \<open>
  A run from \<open>w\<close> to \<open>w'\<close> that makes no \<open>rename\<close> and, at every step, leaves every
  path outside \<open>P\<close> as it was in \<open>w\<close>.
\<close>

definition frame :: "path set \<Rightarrow> world \<Rightarrow> world \<Rightarrow> bool" where
  "frame P w w' \<longleftrightarrow>
     (\<exists>new. trace w' = trace w @ new
        \<and> (\<forall>(c, fs) \<in> set new. (\<forall>a b. c \<noteq> Rename a b) \<and> (\<forall>q. q \<notin> P \<longrightarrow> fs q = files w q)))
     \<and> (\<forall>q. q \<notin> P \<longrightarrow> files w' q = files w q)"

text \<open>
  A world in which an entry for the identifier \<open>k1\<close> exists, and in which the copy of
  \<open>put\<close> fails halfway: the first read is short, the second read fails.
\<close>

definition interrupted_put :: world where
  "interrupted_put =
     \<lparr>files = [canon ''/c'' \<mapsto> Dir, canon ''/c/qwsb'' \<mapsto> Dir,
               canon ''/c/qwsb/k1'' \<mapsto> File ''old'', canon ''/src'' \<mapsto> File ''hello''],
      faults = [Proceed, Proceed, Proceed, Proceed, Proceed, Short 1, Proceed, Fail EIO],
      trace = []\<rparr>"

text \<open>A cache root \<open>/c\<close> with nothing in it, and a file to put.\<close>

definition root_and_source :: world where
  "root_and_source =
     \<lparr>files = [canon ''/c'' \<mapsto> Dir, canon ''/src'' \<mapsto> File ''hello''], faults = [], trace = []\<rparr>"

text \<open>
  A cache in which the shard directory of the identifier \<open>.\<close> exists and holds nothing,
  and a file at the destination of a \<open>get\<close>.
\<close>

definition shard_and_destination :: world where
  "shard_and_destination =
     \<lparr>files = [canon ''/c'' \<mapsto> Dir, canon ''/c/vbaa'' \<mapsto> Dir, canon ''out'' \<mapsto> File ''precious''],
      faults = [], trace = []\<rparr>"

section \<open>The string buffer and the path join\<close>

lemma wf_empty_buffer: "wf_buffer empty_buffer" "str empty_buffer = []"
  by (simp_all add: wf_buffer_def empty_buffer_def)

lemma str_buffer_extend_fields:
  "str (str_buffer_extend b n) = str b" "len (str_buffer_extend b n) = len b"
  by (simp_all add: str_buffer_extend_def Let_def)

lemma wf_str_buffer_extend: "wf_buffer b \<Longrightarrow> wf_buffer (str_buffer_extend b n)"
  by (simp add: wf_buffer_def str_buffer_extend_fields)

lemma str_buffer_join_str:
  "wf_buffer b \<Longrightarrow> str (str_buffer_join b s) = str b @ s"
  by (simp add: wf_buffer_def str_buffer_join_def Let_def str_buffer_extend_fields)

lemma wf_str_buffer_join: "wf_buffer b \<Longrightarrow> wf_buffer (str_buffer_join b s)"
  by (simp add: wf_buffer_def str_buffer_join_def Let_def str_buffer_extend_fields)

lemma str_buffer_join_char_str:
  "wf_buffer b \<Longrightarrow> str (str_buffer_join_char b ch) = str b @ [ch]"
  by (simp add: wf_buffer_def str_buffer_join_char_def Let_def str_buffer_extend_fields)

lemma wf_str_buffer_join_char: "wf_buffer b \<Longrightarrow> wf_buffer (str_buffer_join_char b ch)"
  by (simp add: wf_buffer_def str_buffer_join_char_def Let_def str_buffer_extend_fields)

lemma last_char_of_buffer:
  "wf_buffer b \<Longrightarrow>
     (len b = 0 \<or> str b ! (len b - Suc 0) \<noteq> c) = (str b = [] \<or> last (str b) \<noteq> c)"
  by (cases "str b = []") (simp_all add: wf_buffer_def last_conv_nth)

lemma str_join_path_loop_single:
  assumes "wf_buffer b"
  shows "str (str_join_path_loop b [s]) = str b @ separator (str b) s @ s"
proof -
  have "wf_buffer (str_buffer_join b ''/'')"
    using assms by (rule wf_str_buffer_join)
  then show ?thesis
    using assms
    by (simp add: last_char_of_buffer separator_def str_buffer_join_str)
qed

lemma str_join_path_two: "str_join_path l [r] = l @ separator l r @ r"
proof -
  have w: "wf_buffer (str_buffer_join empty_buffer l)"
    by (simp add: wf_empty_buffer wf_str_buffer_join)
  have s: "str (str_buffer_join empty_buffer l) = l"
    by (simp add: wf_empty_buffer str_buffer_join_str)
  show ?thesis
    unfolding str_join_path_def using str_join_path_loop_single [OF w] by (simp add: s)
qed

lemma encode_id_loop_str:
  "wf_buffer b \<Longrightarrow>
     str (encode_id_loop sg b ident) = str b @ concat (map (encode_byte sg) ident)"
proof (induction ident arbitrary: b)
  case Nil
  then show ?case by simp
next
  case (Cons ch rest)
  show ?case
  proof (cases "escaped sg ch")
    case True
    with Cons.prems Cons.IH [of "str_buffer_join b (snprintf_esc (to_unsigned (char_as_int sg ch)))"]
    show ?thesis
      by (simp add: wf_str_buffer_join str_buffer_join_str encode_byte_def)
  next
    case False
    with Cons.prems Cons.IH [of "str_buffer_join_char b ch"]
    show ?thesis
      by (simp add: wf_str_buffer_join_char str_buffer_join_char_str encode_byte_def)
  qed
qed

lemma encode_id_concat: "encode_id sg ident = concat (map (encode_byte sg) ident)"
  unfolding encode_id_def
  using encode_id_loop_str [of "str_buffer_extend empty_buffer (length ident)" sg ident]
  by (simp add: wf_str_buffer_extend wf_empty_buffer str_buffer_extend_fields)

lemma print_u_nonempty: "print_u n \<noteq> []"
  by (subst print_u.simps) simp

lemma print_u_digits: "c \<in> set (print_u n) \<Longrightarrow> is_digit c"
proof (induction n rule: print_u.induct)
  case (1 n)
  show ?case
  proof (cases "n < 10")
    case True
    with "1.prems" have "c = char_of (48 + n)"
      by (subst (asm) print_u.simps) simp
    with True show ?thesis by (simp add: is_digit_def)
  next
    case False
    with "1.prems" have "c \<in> set (print_u (n div 10)) \<or> c = char_of (48 + n mod 10)"
      by (subst (asm) print_u.simps) auto
    then show ?thesis
    proof
      assume "c \<in> set (print_u (n div 10))"
      with False "1.IH" show ?thesis by simp
    next
      assume c: "c = char_of (48 + n mod 10)"
      have "(48 + n mod 10) mod 256 = 48 + n mod 10"
      proof -
        have "n mod 10 < 10" by simp
        then show ?thesis by simp
      qed
      with c show ?thesis by (simp add: is_digit_def)
    qed
  qed
qed

lemma print_u_length: "n < 1000 \<Longrightarrow> length (print_u n) \<le> 3"
proof -
  assume n: "n < 1000"
  have a: "length (print_u n) \<le> Suc (length (print_u (n div 10)))"
    by (subst print_u.simps) simp
  have b: "length (print_u (n div 10)) \<le> Suc (length (print_u (n div 10 div 10)))"
    by (subst print_u.simps) simp
  from n have "n div 10 div 10 < 10" by simp
  then have "length (print_u (n div 10 div 10)) = 1"
    by (subst print_u.simps) simp
  with a b show ?thesis by simp
qed

lemma digit_char_inj:
  assumes "char_of (48 + a) = char_of (48 + b)" "a < 10" "b < (10::nat)"
  shows "a = b"
proof -
  from assms(1) have "of_char (char_of (48 + a)) = (of_char (char_of (48 + b)) :: nat)"
    by simp
  with assms(2,3) show ?thesis by simp
qed

lemma print_u_small: "n < 10 \<Longrightarrow> print_u n = [char_of (48 + n)]"
  by (subst print_u.simps) simp

lemma print_u_large:
  "\<not> n < 10 \<Longrightarrow> print_u n = print_u (n div 10) @ [char_of (48 + n mod 10)]"
  by (subst print_u.simps [of n]) (simp only: if_False)

lemma print_u_large_length: "\<not> n < 10 \<Longrightarrow> 2 \<le> length (print_u n)"
proof -
  assume "\<not> n < 10"
  then have "length (print_u n) = Suc (length (print_u (n div 10)))"
    by (simp add: print_u_large [of n])
  moreover have "0 < length (print_u (n div 10))"
    using print_u_nonempty [of "n div 10"] by simp
  ultimately show ?thesis by linarith
qed

lemma print_u_inj: "print_u m = print_u n \<Longrightarrow> m = n"
proof (induction m arbitrary: n rule: print_u.induct)
  case (1 m)
  show ?case
  proof (cases "m < 10")
    case m: True
    show ?thesis
    proof (cases "n < 10")
      case True
      with m "1.prems" have "char_of (48 + m) = char_of (48 + n)"
        by (simp add: print_u_small)
      then show ?thesis using m True by (rule digit_char_inj)
    next
      case False
      from m have "length (print_u m) = 1" by (simp add: print_u_small)
      with print_u_large_length [OF False] "1.prems" show ?thesis by simp
    qed
  next
    case m: False
    show ?thesis
    proof (cases "n < 10")
      case True
      then have "length (print_u n) = 1" by (simp add: print_u_small)
      with print_u_large_length [OF m] "1.prems" show ?thesis by simp
    next
      case False
      with m "1.prems" have e: "print_u (m div 10) = print_u (n div 10)"
        and d: "char_of (48 + m mod 10) = char_of (48 + n mod 10)"
        by (simp_all add: print_u_large [of m] print_u_large [of n])
      from e m "1.IH" have "m div 10 = n div 10" by simp
      moreover from d have "m mod 10 = n mod 10" by (rule digit_char_inj) simp_all
      ultimately show ?thesis by (metis div_mult_mod_eq)
    qed
  qed
qed




lemma encode_byte_unescaped: "\<not> escaped sg c \<Longrightarrow> encode_byte sg c = [c]"
  by (simp add: encode_byte_def)

lemma encode_byte_escaped:
  "escaped sg c \<Longrightarrow> encode_byte sg c = take 4 (CHR ''%'' # print_u (to_unsigned (char_as_int sg c)))"
  by (simp add: encode_byte_def snprintf_esc_def)

lemma encode_byte_escaped_hd:
  "escaped sg c \<Longrightarrow> \<exists>d ds. encode_byte sg c = CHR ''%'' # d # ds \<and> is_digit d"
proof -
  assume e: "escaped sg c"
  obtain d ds where p: "print_u (to_unsigned (char_as_int sg c)) = d # ds"
    using print_u_nonempty by (meson list.exhaust)
  then have "d \<in> set (print_u (to_unsigned (char_as_int sg c)))" by simp
  then have "is_digit d" by (rule print_u_digits)
  with e p show ?thesis by (simp add: encode_byte_escaped)
qed

lemma encode_byte_set:
  "x \<in> set (encode_byte sg c) \<Longrightarrow> x = CHR ''%'' \<or> is_digit x \<or> (x = c \<and> \<not> escaped sg c)"
proof (cases "escaped sg c")
  case True
  assume "x \<in> set (encode_byte sg c)"
  with True have "x \<in> set (CHR ''%'' # print_u (to_unsigned (char_as_int sg c)))"
    using in_set_takeD by (fastforce simp add: encode_byte_escaped)
  then show ?thesis by (auto dest: print_u_digits)
next
  case False
  assume "x \<in> set (encode_byte sg c)"
  with False show ?thesis by (simp add: encode_byte_unescaped)
qed

lemma encode_id_set:
  "x \<in> set (encode_id sg ident) \<Longrightarrow> x = CHR ''%'' \<or> is_digit x \<or> \<not> escaped sg x"
  by (auto simp add: encode_id_concat dest: encode_byte_set)

lemma encode_id_no_question_mark: "CHR ''?'' \<notin> set (encode_id sg ident)"
  using encode_id_set [of "CHR ''?''" sg ident] by (auto simp add: is_digit_def escaped_def)

lemma encode_id_no_slash: "CHR ''/'' \<notin> set (encode_id sg ident)"
  using encode_id_set [of "CHR ''/''" sg ident] by (auto simp add: is_digit_def escaped_def)

lemma encode_byte_length: "1 \<le> length (encode_byte sg c)"
  using encode_byte_escaped_hd [of sg c] by (cases "escaped sg c") (auto simp add: encode_byte_unescaped)

lemma encode_byte_escaped_length: "escaped sg c \<Longrightarrow> 2 \<le> length (encode_byte sg c)"
  using encode_byte_escaped_hd [of sg c] by auto

lemma encode_id_length: "length ident \<le> length (encode_id sg ident)"
proof (induction ident)
  case Nil
  then show ?case by (simp add: encode_id_concat)
next
  case (Cons c rest)
  with encode_byte_length [of sg c] show ?case by (simp add: encode_id_concat)
qed

lemma encode_id_longer:
  "c \<in> set ident \<Longrightarrow> escaped sg c \<Longrightarrow> length ident < length (encode_id sg ident)"
proof (induction ident)
  case Nil
  then show ?case by simp
next
  case (Cons x rest)
  show ?case
  proof (cases "x = c")
    case True
    with Cons.prems encode_byte_escaped_length [of sg x] encode_id_length [of rest sg]
    show ?thesis by (simp add: encode_id_concat)
  next
    case False
    with Cons encode_byte_length [of sg x] show ?thesis by (simp add: encode_id_concat)
  qed
qed

lemma encode_id_keeps_percent:
  "CHR ''%'' \<in> set ident \<Longrightarrow> CHR ''%'' \<in> set (encode_id sg ident)"
proof -
  assume "CHR ''%'' \<in> set ident"
  moreover have "CHR ''%'' \<in> set (encode_byte sg CHR ''%'')"
    using encode_byte_escaped_hd [of sg "CHR ''%''"] by (auto simp add: escaped_def)
  ultimately show ?thesis by (auto simp add: encode_id_concat)
qed

text \<open>
  Claim C7: the encoding of an identifier that contains a percent sign is changed by
  encoding it again.
\<close>

theorem encode_id_not_idempotent:
  "CHR ''%'' \<in> set ident \<Longrightarrow> encode_id sg (encode_id sg ident) \<noteq> encode_id sg ident"
proof -
  assume "CHR ''%'' \<in> set ident"
  then have "CHR ''%'' \<in> set (encode_id sg ident)" by (rule encode_id_keeps_percent)
  moreover have "escaped sg CHR ''%''" by (simp add: escaped_def)
  ultimately have "length (encode_id sg ident) < length (encode_id sg (encode_id sg ident))"
    by (rule encode_id_longer)
  then show ?thesis by auto
qed

lemma encode_id_percent: "encode_id sg ''%'' = ''%37''"
  by (simp add: encode_id_concat encode_byte_def escaped_def snprintf_esc_def char_as_int_def
      to_unsigned_def print_u.simps [of 37] print_u.simps [of 3] char_of_def bit_0)

lemma encode_id_percent_twice: "encode_id sg ''%37'' = ''%3737''"
  by (simp add: encode_id_concat encode_byte_def escaped_def snprintf_esc_def char_as_int_def
      to_unsigned_def print_u.simps [of 37] print_u.simps [of 3] char_of_def bit_0)

text \<open>The identifier \<open>%\<close> becomes \<open>%37\<close>, and that becomes \<open>%3737\<close>.\<close>

theorem encode_id_not_idempotent_witness:
  "CHR ''%'' \<in> set ''%'' \<and> encode_id True (encode_id True ''%'') = ''%3737''
   \<and> encode_id True ''%'' = ''%37'' \<and> encode_id True (encode_id True ''%'') \<noteq> encode_id True ''%''"
  using encode_id_not_idempotent [of "''%''" True]
  by (simp add: encode_id_percent encode_id_percent_twice)

section \<open>The encoder and the encoder of the specification\<close>

lemma char_as_int_unsigned: "char_as_int False c = of_char c"
  by (simp add: char_as_int_def)

lemma of_char_int: "(of_char c :: int) = int (of_char c)"
  by (simp add: of_nat_of_char)

lemma of_char_int_less: "(of_char c :: int) < 256"
proof -
  have "int (of_char c) < int 256"
    using nat_of_char_less_256 [of c] by (simp only: of_nat_less_iff)
  then show ?thesis by (simp add: of_nat_of_char)
qed

lemma of_char_int_nonneg: "0 \<le> (of_char c :: int)"
  unfolding of_char_int by (rule of_nat_0_le_iff)

lemma of_char_int_less_iff: "(of_char c :: int) < numeral k \<longleftrightarrow> (of_char c :: nat) < numeral k"
proof -
  have "int (of_char c) < int (numeral k) \<longleftrightarrow> (of_char c :: nat) < numeral k"
    by (rule of_nat_less_iff)
  then show ?thesis by (simp add: of_nat_of_char)
qed

lemma char_as_int_nonneg: "0 \<le> char_as_int sg c \<Longrightarrow> char_as_int sg c = of_char c"
  using of_char_int_less [of c] by (simp add: char_as_int_def split: if_splits)

lemma to_unsigned_of_char: "to_unsigned (of_char c) = of_char c"
proof -
  have "(of_char c :: int) mod 2 ^ 32 = of_char c"
  proof (rule mod_pos_pos_trivial)
    show "0 \<le> (of_char c :: int)" by (rule of_char_int_nonneg)
    have "(256 :: int) < 2 ^ 32" by simp
    then show "(of_char c :: int) < 2 ^ 32"
      using of_char_int_less [of c] by (rule less_trans [rotated])
  qed
  then show ?thesis by (simp add: to_unsigned_def)
qed

lemma escaped_nonneg:
  "0 \<le> char_as_int sg c \<Longrightarrow> escaped sg c \<longleftrightarrow> control c \<or> reserved c"
proof -
  assume n: "0 \<le> char_as_int sg c"
  have "(of_char c :: int) < 32 \<longleftrightarrow> (of_char c :: nat) < 32"
    by (rule of_char_int_less_iff)
  then show ?thesis
    by (simp add: escaped_def char_as_int_nonneg [OF n] control_def reserved_def disj_ac)
qed

lemma snprintf_esc_of_char: "snprintf_esc (of_char c) = CHR ''%'' # print_u (of_char c)"
proof -
  have "(of_char c :: nat) < 1000"
    using nat_of_char_less_256 [of c] by linarith
  then have "length (print_u (of_char c)) \<le> 3" by (rule print_u_length)
  then show ?thesis by (simp add: snprintf_esc_def)
qed

lemma encode_byte_nonneg: "0 \<le> char_as_int sg c \<Longrightarrow> encode_byte sg c = encode_byte_spec c"
  by (simp add: encode_byte_def encode_byte_spec_def escaped_nonneg char_as_int_nonneg
      to_unsigned_of_char snprintf_esc_of_char)

lemma encode_id_plain_chars: "plain_chars sg ident \<Longrightarrow> encode_id sg ident = encode_id_spec ident"
  by (induction ident)
    (simp_all add: plain_chars_def encode_id_concat encode_id_spec_def encode_byte_nonneg)

lemma encode_id_unsigned_char: "encode_id False ident = encode_id_spec ident"
  by (rule encode_id_plain_chars)
    (simp add: plain_chars_def char_as_int_unsigned list_all_iff of_char_int_nonneg)

lemma plain_chars_ascii:
  "plain_chars True ident \<longleftrightarrow> list_all (\<lambda>c. (of_char c :: nat) < 128) ident"
proof -
  have "0 \<le> char_as_int True c \<longleftrightarrow> (of_char c :: nat) < 128" for c
    using of_char_int_less [of c] of_char_int_nonneg [of c] of_char_int_less_iff [of c "num.Bit0 (num.Bit0 (num.Bit0 (num.Bit0 (num.Bit0 (num.Bit0 (num.Bit0 num.One))))))"]
    by (auto simp add: char_as_int_def)
  then show ?thesis by (simp add: plain_chars_def)
qed

text \<open>
  Claim C4, at the input where the code departs from it: where plain \<open>char\<close> is signed,
  the byte 128 is below the space character as a \<open>char\<close>, so it is escaped, and its
  conversion to \<open>unsigned\<close> is 4294967168, of which \<open>snprintf\<close> with size 5 keeps
  \<open>%429\<close>. The byte is neither passed through nor replaced by its decimal value 128.
\<close>

theorem encode_id_truncates_negative_char:
  "encode_id True [CHR 0x80] = ''%429''
   \<and> encode_id_spec [CHR 0x80] = [CHR 0x80]
   \<and> encode_id True [CHR 0x80] \<noteq> CHR ''%'' # print_u 128"
  by (simp add: encode_id_concat encode_byte_def escaped_def snprintf_esc_def char_as_int_def
      to_unsigned_def encode_id_spec_def encode_byte_spec_def control_def reserved_def
      print_u.simps [of 4294967168] print_u.simps [of 429496716] print_u.simps [of 42949671]
      print_u.simps [of 4294967] print_u.simps [of 429496] print_u.simps [of 42949]
      print_u.simps [of 4294] print_u.simps [of 429] print_u.simps [of 42] print_u.simps [of 4]
      print_u.simps [of 128] print_u.simps [of 12] print_u.simps [of 1]
      char_of_def bit_0)

lemma digits_then_rest:
  assumes "\<forall>x \<in> set d1. is_digit x" "\<forall>x \<in> set d2. is_digit x"
    and "r1 = [] \<or> \<not> is_digit (hd r1)" "r2 = [] \<or> \<not> is_digit (hd r2)"
    and "d1 @ r1 = d2 @ r2"
  shows "d1 = d2 \<and> r1 = r2"
proof -
  have t1: "takeWhile is_digit r1 = []"
    using assms(3) by (cases r1) auto
  have t2: "takeWhile is_digit r2 = []"
    using assms(4) by (cases r2) auto
  have "takeWhile is_digit (d1 @ r1) = d1"
    using assms(1) t1 by (simp add: takeWhile_append2)
  moreover have "takeWhile is_digit (d2 @ r2) = d2"
    using assms(2) t2 by (simp add: takeWhile_append2)
  ultimately have "d1 = d2" using assms(5) by simp
  with assms(5) show ?thesis by simp
qed

lemma encode_byte_spec_nonempty: "encode_byte_spec c \<noteq> []"
  by (simp add: encode_byte_spec_def)

lemma encode_id_spec_Nil: "encode_id_spec s = [] \<longleftrightarrow> s = []"
  by (cases s) (simp_all add: encode_id_spec_def encode_byte_spec_nonempty)

lemma encode_id_spec_Cons: "encode_id_spec (c # s) = encode_byte_spec c @ encode_id_spec s"
  by (simp add: encode_id_spec_def)

lemma percent_not_digit: "\<not> is_digit CHR ''%''"
  by (simp add: is_digit_def)

lemma percent_escaped_spec: "control CHR ''%'' \<or> reserved CHR ''%''"
  by (simp add: reserved_def)

lemma encode_id_spec_hd:
  "s \<noteq> [] \<Longrightarrow> \<not> is_digit (hd s) \<Longrightarrow> \<not> is_digit (hd (encode_id_spec s))"
  by (cases s) (simp_all add: encode_id_spec_Cons encode_byte_spec_def percent_not_digit)

lemma print_u_one: "n < 10 \<Longrightarrow> length (print_u n) = 1"
  by (simp add: print_u_small)

lemma print_u_two: "\<not> n < 10 \<Longrightarrow> n < 100 \<Longrightarrow> length (print_u n) = 2"
  by (simp add: print_u_large [of n] print_u_small [of "n div 10"])

lemma escaped_spec_less_100: "control c \<or> reserved c \<Longrightarrow> (of_char c :: nat) < 100"
  by (auto simp add: control_def reserved_def)

lemma encode_id_spec_no_digit:
  assumes "\<not> digit_after_small_byte (x # xs)" "(of_char x :: nat) < 10"
  shows "encode_id_spec xs = [] \<or> \<not> is_digit (hd (encode_id_spec xs))"
proof (cases xs)
  case Nil
  then show ?thesis by (simp add: encode_id_spec_def)
next
  case (Cons x' xs')
  with assms have "\<not> is_digit (hd xs)" by auto
  with Cons show ?thesis using encode_id_spec_hd [of xs] by simp
qed

lemma escapes_apart:
  assumes eq: "print_u m @ r = print_u n @ s"
    and m: "m < 100" and n: "n < 100"
    and rm: "m < 10 \<Longrightarrow> r = [] \<or> \<not> is_digit (hd r)"
    and rn: "n < 10 \<Longrightarrow> s = [] \<or> \<not> is_digit (hd s)"
  shows "m = n \<and> r = s"
proof -
  have same: "length (print_u m) = length (print_u n)"
  proof (cases "m < 10")
    case sm: True
    show ?thesis
    proof (cases "n < 10")
      case True
      with sm show ?thesis by (simp add: print_u_one)
    next
      case False
      obtain c where c: "print_u m = [c]"
        using sm by (simp add: print_u_small)
      from False n have "length (print_u n) = 2" by (rule print_u_two)
      then obtain d e where d: "print_u n = [d, e]"
        by (cases "print_u n"; cases "tl (print_u n)") auto
      have "is_digit e"
        by (rule print_u_digits [of e n]) (simp add: d)
      moreover from eq c d have "r = e # s" by simp
      ultimately show ?thesis using rm [OF sm] by simp
    qed
  next
    case lm: False
    show ?thesis
    proof (cases "n < 10")
      case sn: True
      obtain c where c: "print_u n = [c]"
        using sn by (simp add: print_u_small)
      from lm m have "length (print_u m) = 2" by (rule print_u_two)
      then obtain d e where d: "print_u m = [d, e]"
        by (cases "print_u m"; cases "tl (print_u m)") auto
      have "is_digit e"
        by (rule print_u_digits [of e m]) (simp add: d)
      moreover from eq c d have "s = e # r" by simp
      ultimately show ?thesis using rn [OF sn] by simp
    next
      case False
      with lm m n show ?thesis by (simp add: print_u_two)
    qed
  qed
  with eq have "print_u m = print_u n \<and> r = s" by simp
  then show ?thesis by (auto dest: print_u_inj)
qed

lemma encode_id_spec_inj:
  "\<not> digit_after_small_byte a \<Longrightarrow> \<not> digit_after_small_byte b \<Longrightarrow>
   encode_id_spec a = encode_id_spec b \<Longrightarrow> a = b"
proof (induction a arbitrary: b)
  case Nil
  then show ?case using encode_id_spec_Nil [of b] by (simp add: encode_id_spec_def)
next
  case (Cons x xs)
  show ?case
  proof (cases b)
    case Nil
    with Cons.prems(3) encode_id_spec_Nil [of "x # xs"] show ?thesis
      by (simp add: encode_id_spec_def)
  next
    case b: (Cons y ys)
    have nx: "\<not> digit_after_small_byte xs"
      using Cons.prems(1) by (cases xs) simp_all
    have ny: "\<not> digit_after_small_byte ys"
      using Cons.prems(2) b by (cases ys) simp_all
    have eq: "encode_byte_spec x @ encode_id_spec xs = encode_byte_spec y @ encode_id_spec ys"
      using Cons.prems(3) b by (simp add: encode_id_spec_Cons)
    let ?ex = "control x \<or> reserved x" and ?ey = "control y \<or> reserved y"
    have both: "x = y \<and> encode_id_spec xs = encode_id_spec ys"
    proof (cases ?ex)
      case ex: True
      show ?thesis
      proof (cases ?ey)
        case ey: True
        from eq ex ey have
          "print_u (of_char x) @ encode_id_spec xs = print_u (of_char y) @ encode_id_spec ys"
          by (simp add: encode_byte_spec_def)
        then have "(of_char x :: nat) = of_char y \<and> encode_id_spec xs = encode_id_spec ys"
        proof (rule escapes_apart)
          show "(of_char x :: nat) < 100" using ex by (rule escaped_spec_less_100)
          show "(of_char y :: nat) < 100" using ey by (rule escaped_spec_less_100)
          show "encode_id_spec xs = [] \<or> \<not> is_digit (hd (encode_id_spec xs))"
            if "(of_char x :: nat) < 10"
            using Cons.prems(1) that by (rule encode_id_spec_no_digit)
          show "encode_id_spec ys = [] \<or> \<not> is_digit (hd (encode_id_spec ys))"
            if "(of_char y :: nat) < 10"
            using Cons.prems(2) that unfolding b by (rule encode_id_spec_no_digit)
        qed
        then show ?thesis by simp
      next
        case ney: False
        with eq ex have "y = CHR ''%''" by (simp add: encode_byte_spec_def)
        with ney percent_escaped_spec show ?thesis by simp
      qed
    next
      case nex: False
      show ?thesis
      proof (cases ?ey)
        case True
        with eq nex have "x = CHR ''%''" by (simp add: encode_byte_spec_def)
        with nex percent_escaped_spec show ?thesis by simp
      next
        case False
        with eq nex show ?thesis by (simp add: encode_byte_spec_def)
      qed
    qed
    with Cons.IH [OF nx ny] b show ?thesis by simp
  qed
qed

text \<open>
  Claim C5, amended: on identifiers in which no byte below 10 is followed at once by an
  ASCII digit (and no byte is negative as a plain \<open>char\<close>), the encoder is injective.
  Every other escape has two digits, so a digit after it is not read as part of it.
\<close>

theorem encode_id_injective_without_digit_after_small_byte:
  assumes "plain_chars sg a" "plain_chars sg b"
    and "\<not> digit_after_small_byte a" "\<not> digit_after_small_byte b"
    and "encode_id sg a = encode_id sg b"
  shows "a = b"
proof -
  from assms(1,2,5) have "encode_id_spec a = encode_id_spec b"
    by (simp add: encode_id_plain_chars)
  with assms(3,4) show ?thesis by (rule encode_id_spec_inj)
qed

text \<open>
  Claim C5 as stated fails: the escape has no fixed width and no terminator, so the
  two-byte identifier (byte 1, digit 0) and the one-byte identifier (byte 10) are both
  encoded as \<open>%10\<close>, whether plain \<open>char\<close> is signed or not.
\<close>

theorem encode_id_collision:
  "encode_id True [CHR 0x01, CHR ''0''] = encode_id True [CHR 0x0A]
   \<and> encode_id False [CHR 0x01, CHR ''0''] = encode_id False [CHR 0x0A]
   \<and> [CHR 0x01, CHR ''0''] \<noteq> [CHR 0x0A]"
  by (simp add: encode_id_concat encode_byte_def escaped_def snprintf_esc_def char_as_int_def
      to_unsigned_def print_u.simps [of 10] print_u.simps [of 1] print_u.simps [of "Suc 0"]
      char_of_def bit_0)

text \<open>
  Two identifiers the amended claim tells apart; in both an escaped byte is followed at
  once by a digit.
\<close>

theorem encode_id_injective_witness:
  "plain_chars True ''2024/01/report'' \<and> plain_chars True ''50%2''
   \<and> \<not> digit_after_small_byte ''2024/01/report'' \<and> \<not> digit_after_small_byte ''50%2''
   \<and> encode_id True ''2024/01/report'' \<noteq> encode_id True ''50%2''"
proof -
  have p: "plain_chars True ''2024/01/report''" "plain_chars True ''50%2''"
    by (simp_all add: plain_chars_def char_as_int_def)
  have d: "\<not> digit_after_small_byte ''2024/01/report''" "\<not> digit_after_small_byte ''50%2''"
    by simp_all
  have "''2024/01/report'' \<noteq> ''50%2''" by simp
  with encode_id_injective_without_digit_after_small_byte [OF p d]
  have "encode_id True ''2024/01/report'' \<noteq> encode_id True ''50%2''" by blast
  with p d show ?thesis by simp
qed

text \<open>
  Where plain \<open>char\<close> is signed the bytes from 128 on are not told apart: the escape of
  each of them is cut to \<open>%429\<close>.
\<close>

lemma encode_id_negative_chars_collide:
  "encode_id True [CHR 0x80] = ''%429''" "encode_id True [CHR 0x81] = ''%429''"
  by (simp_all add: encode_id_concat encode_byte_def escaped_def snprintf_esc_def char_as_int_def
      to_unsigned_def
      print_u.simps [of 4294967168] print_u.simps [of 4294967169]
      print_u.simps [of 429496716] print_u.simps [of 42949671]
      print_u.simps [of 4294967] print_u.simps [of 429496] print_u.simps [of 42949]
      print_u.simps [of 4294] print_u.simps [of 429] print_u.simps [of 42] print_u.simps [of 4]
      char_of_def bit_0)

section \<open>The shard router\<close>

lemma base_25: "base = 25"
  by (simp add: base_def)

lemma unat_of_char: "unat (of_char c :: 8 word) = of_char c"
proof -
  have "(of_char c :: 8 word) = of_nat (of_char c)"
    by (simp add: of_nat_of_char)
  then have "unat (of_char c :: 8 word) = of_char c mod 2 ^ 8"
    by (simp add: unat_of_nat)
  then show ?thesis using nat_of_char_less_256 [of c] by simp
qed

lemma unat_subdir_step:
  "unat (push_bit 8 s + ucast ((of_char c :: 8 word) XOR ucast (drop_bit 24 s)) :: 64 word)
     = shard_step bits_24_31 (unat s) c"
proof -
  have x: "unat ((of_char c :: 8 word) XOR ucast (drop_bit 24 s))
      = of_char c XOR (unat s div 2 ^ 24 mod 2 ^ 8)"
    by (simp add: unsigned_xor_eq unat_of_char unsigned_ucast_eq unat_drop_bit_eq
        take_bit_eq_mod drop_bit_eq_div unat_div)
  have u: "unat (ucast ((of_char c :: 8 word) XOR ucast (drop_bit 24 s)) :: 64 word)
      = unat ((of_char c :: 8 word) XOR ucast (drop_bit 24 s))"
  proof -
    have "unat w < 2 ^ 64" for w :: "8 word"
    proof -
      have "unat w < 2 ^ 8" using unsigned_less [of w, where ?'a = nat] by simp
      then show ?thesis by simp
    qed
    then show ?thesis by (simp add: unsigned_ucast_eq take_bit_eq_mod)
  qed
  have p: "unat (push_bit 8 s) = unat s * 2 ^ 8 mod 2 ^ 64"
    by (simp add: push_bit_eq_mult unat_word_ariths(2))
  show ?thesis
    unfolding shard_step_def bits_24_31_def
    by (simp only: unat_word_ariths(1) u x p) (simp add: mod_add_left_eq)
qed

lemma unat_subdir_hash:
  "unat (subdir_hash s ident) = foldl (shard_step bits_24_31) (unat s) ident"
proof (induction ident arbitrary: s)
  case Nil
  then show ?case by simp
next
  case (Cons c rest)
  show ?case
    by (simp only: subdir_hash.simps Let_def Cons.IH unat_subdir_step foldl_Cons)
qed

lemma subdir_letters_4:
  "subdir_letters 4 s =
     [char_of (97 + unat s mod 25), char_of (97 + unat s div 25 mod 25),
      char_of (97 + unat s div 25 div 25 mod 25), char_of (97 + unat s div 25 div 25 div 25 mod 25)]"
proof -
  have n: "(4 :: nat) = Suc (Suc (Suc (Suc 0)))" by simp
  have w: "unat (of_nat base :: 64 word) = 25" by (simp add: base_25)
  show ?thesis
    unfolding n by (simp add: unat_mod unat_div w add.commute)
qed

lemma get_subdir_for_id_shard_name: "get_subdir_for_id ident = shard_name bits_24_31 ident"
proof -
  have "unat (subdir_hash 0 ident) = shard_accumulate bits_24_31 ident"
    by (simp add: unat_subdir_hash shard_accumulate_def)
  moreover have d2: "n div 25 div 25 = n div 625" for n :: nat
    using div_mult2_eq [of n 25 25] by simp
  moreover have "n div 25 div 25 div 25 = n div 15625" for n :: nat
    using div_mult2_eq [of n 625 25] by (simp add: d2)
  ultimately show ?thesis
    by (simp add: get_subdir_for_id_def subdir_letters_4 shard_name_def shard_letter_def)
qed

text \<open>
  Claim C3, amended: the shard name is computed as the specification words it, except
  that the byte is combined with bits 24 to 31 of the accumulator (the accumulator
  shifted right by 24, cut to eight bits), not with its top eight bits.
\<close>

theorem get_subdir_for_id_bits_24_31: "get_subdir_for_id ident = shard_name bits_24_31 ident"
  by (rule get_subdir_for_id_shard_name)

text \<open>
  Claim C3 as stated fails: after four bytes the top eight bits of the accumulator are
  still zero, its bits 24 to 31 are not. For the identifier \<open>aaaaa\<close> the code computes
  the shard \<open>nejs\<close>, the algorithm of the claim \<open>kijs\<close>.
\<close>

theorem get_subdir_for_id_not_top8:
  "get_subdir_for_id ''aaaaa'' = ''nejs'' \<and> shard_name top8 ''aaaaa'' = ''kijs''"
proof -
  have a: "shard_accumulate bits_24_31 ''aaaaa'' = 418245599488"
    by (simp add: shard_accumulate_def shard_step_def bits_24_31_def)
  have b: "shard_accumulate top8 ''aaaaa'' = 418245599585"
    by (simp add: shard_accumulate_def shard_step_def top8_def)
  show ?thesis
    by (simp add: get_subdir_for_id_shard_name shard_name_def shard_letter_def a b
        char_of_def bit_0)
qed

section \<open>The resolved paths\<close>

lemma shard_letter_value:
  "(of_char (shard_letter acc i) :: nat) = 97 + acc div 25 ^ i mod 25"
proof -
  have "acc div 25 ^ i mod 25 < 25" by simp
  then have "(97 + acc div 25 ^ i mod 25) mod 256 = 97 + acc div 25 ^ i mod 25"
    by simp
  then show ?thesis by (simp add: shard_letter_def)
qed

lemma shard_letter_not_sep: "shard_letter acc i \<noteq> CHR ''/''"
proof
  assume "shard_letter acc i = CHR ''/''"
  then have "(of_char (shard_letter acc i) :: nat) = of_char CHR ''/''" by simp
  then show False by (simp add: shard_letter_value)
qed

lemma get_subdir_for_id_shape:
  "\<exists>a b c d. get_subdir_for_id ident = [a, b, c, d] \<and> a \<noteq> CHR ''/'' \<and> d \<noteq> CHR ''/''"
  by (simp add: get_subdir_for_id_shard_name shard_name_def shard_letter_not_sep)

lemma c_first_encode_id: "c_first (encode_id sg ident) \<noteq> CHR ''/''"
proof (cases "encode_id sg ident")
  case Nil
  then show ?thesis by (simp add: c_first_def)
next
  case (Cons c rest)
  then have "c \<in> set (encode_id sg ident)" by simp
  with encode_id_no_slash [of sg ident] have "c \<noteq> CHR ''/''" by auto
  with Cons show ?thesis by (simp add: c_first_def)
qed

lemma cache_id_to_path_fields:
  "dirname (cache_id_to_path sg cache_path cache_id) = get_subdir_for_id cache_id"
  "filename (cache_id_to_path sg cache_path cache_id) = encode_id sg cache_id"
  "relpath (cache_id_to_path sg cache_path cache_id)
     = str_join_path (get_subdir_for_id cache_id) [encode_id sg cache_id]"
  "fullpath (cache_id_to_path sg cache_path cache_id)
     = str_join_path cache_path [str_join_path (get_subdir_for_id cache_id) [encode_id sg cache_id]]"
  "dirfullpath (cache_id_to_path sg cache_path cache_id)
     = str_join_path cache_path [get_subdir_for_id cache_id]"
  by (simp_all add: cache_id_to_path_def Let_def)

lemma relpath_eq:
  "relpath (cache_id_to_path sg cache_path cache_id)
     = get_subdir_for_id cache_id @ ''/'' @ encode_id sg cache_id"
proof -
  obtain a b c d where "get_subdir_for_id cache_id = [a, b, c, d]" "d \<noteq> CHR ''/''"
    using get_subdir_for_id_shape [of cache_id] by blast
  then show ?thesis
    using c_first_encode_id [of sg cache_id]
    by (simp add: cache_id_to_path_fields str_join_path_two separator_def)
qed

lemma fullpath_eq:
  "fullpath (cache_id_to_path sg cache_path cache_id)
     = dirfullpath (cache_id_to_path sg cache_path cache_id) @ ''/'' @ encode_id sg cache_id"
proof -
  obtain a b c d where s: "get_subdir_for_id cache_id = [a, b, c, d]"
    using get_subdir_for_id_shape [of cache_id] by blast
  have "separator cache_path (get_subdir_for_id cache_id @ ''/'' @ encode_id sg cache_id)
      = separator cache_path (get_subdir_for_id cache_id)"
    by (simp add: separator_def c_first_def s)
  then show ?thesis
    using relpath_eq [of sg cache_path cache_id]
    by (simp add: cache_id_to_path_fields str_join_path_two)
qed

lemma tmpfilename_eq:
  "tmpfilename (cache_id_to_path sg cache_path cache_id)
     = dirfullpath (cache_id_to_path sg cache_path cache_id) @ ''/.?tmpfile''"
proof -
  obtain a b c d where "get_subdir_for_id cache_id = [a, b, c, d]" "d \<noteq> CHR ''/''"
    using get_subdir_for_id_shape [of cache_id] by blast
  then show ?thesis
    by (simp add: tmpfilename_def cache_id_to_path_fields str_join_path_two separator_def
        c_first_def)
qed

lemma encode_id_not_tmpfile: "encode_id sg ident \<noteq> ''.?tmpfile''"
proof
  assume "encode_id sg ident = ''.?tmpfile''"
  then have "CHR ''?'' \<in> set (encode_id sg ident)" by simp
  with encode_id_no_question_mark [of sg ident] show False by simp
qed

lemma fullpath_not_tmpfilename:
  "fullpath (cache_id_to_path sg cache_path cache_id)
     \<noteq> tmpfilename (cache_id_to_path sg cache_path cache_id)"
  using encode_id_not_tmpfile [of sg cache_id] by (simp add: fullpath_eq tmpfilename_eq)

lemma fullpath_not_dirfullpath:
  "fullpath (cache_id_to_path sg cache_path cache_id)
     \<noteq> dirfullpath (cache_id_to_path sg cache_path cache_id)"
  by (simp add: fullpath_eq)

section \<open>Canonical paths\<close>

lemma canon_values:
  "canon ''/c'' = (True, [''c''])"
  "canon ''/src'' = (True, [''src''])"
  "canon ''out'' = (False, [''out''])"
  "canon ''/c/.lock'' = (True, [''c'', ''.lock''])"
  "canon ''/c/ewvt'' = (True, [''c'', ''ewvt''])"
  "canon ''/c/ewvt/unknown-key'' = (True, [''c'', ''ewvt'', ''unknown-key''])"
  "canon ''/c/qwsb'' = (True, [''c'', ''qwsb''])"
  "canon ''/c/qwsb/k1'' = (True, [''c'', ''qwsb'', ''k1''])"
  "canon ''/c/qwsb/.?tmpfile'' = (True, [''c'', ''qwsb'', ''.?tmpfile''])"
  by (simp_all add: canon_def c_first_def enter_def)

text \<open>The paths of the identifier \<open>.\<close>, which the encoder leaves as it is.\<close>

lemma subdir_dot: "get_subdir_for_id ''.'' = ''vbaa''"
proof -
  have "shard_accumulate bits_24_31 ''.'' = 46"
    by (simp add: shard_accumulate_def shard_step_def bits_24_31_def)
  then show ?thesis
    by (simp add: get_subdir_for_id_shard_name shard_name_def shard_letter_def char_of_def bit_0)
qed

lemma paths_dot:
  "cache_id_to_path sg ''/c'' ''.'' =
     \<lparr>dirname = ''vbaa'', filename = ''.'', relpath = ''vbaa/.'',
      fullpath = ''/c/vbaa/.'', dirfullpath = ''/c/vbaa''\<rparr>"
proof -
  have "encode_id sg ''.'' = ''.''"
    by (simp add: encode_id_concat encode_byte_def escaped_def char_as_int_def)
  then show ?thesis
    by (simp add: cache_id_to_path_def subdir_dot str_join_path_two separator_def c_first_def
        Let_def)
qed

lemma tmpfilename_dot:
  "tmpfilename \<lparr>dirname = ''vbaa'', filename = ''.'', relpath = ''vbaa/.'',
      fullpath = ''/c/vbaa/.'', dirfullpath = ''/c/vbaa''\<rparr> = ''/c/vbaa/.?tmpfile''"
  by (simp add: tmpfilename_def str_join_path_two separator_def c_first_def)

lemma canon_values_dot:
  "canon ''/c/vbaa'' = (True, [''c'', ''vbaa''])"
  "canon ''/c/vbaa/.'' = (True, [''c'', ''vbaa''])"
  "canon ''/c/vbaa/.?tmpfile'' = (True, [''c'', ''vbaa'', ''.?tmpfile''])"
  by (simp_all add: canon_def c_first_def enter_def)

section \<open>The commands on a missing entry\<close>

lemma called_fields:
  "files (called c fs w) = fs" "faults (called c fs w) = tl (faults w)"
  "trace (called c fs w) = trace w @ [(c, fs)]"
  by (simp_all add: called_def)

lemma sys_stat_missing: "files w (canon p) = None \<Longrightarrow> \<exists>e. fst (sys_stat p w) = Inl e"
  by (simp add: sys_stat_def split: fault.splits)

lemma sys_stat_world: "snd (sys_stat p w) = called (Stat p) (files w) w"
  by (simp add: sys_stat_def)

lemma command_get_missing:
  assumes "files w (canon (fullpath (cache_id_to_path sg cache_path cache_id))) = None"
  shows "command_get v sg cache_path cache_id dest w
    = (RET_MISS, called (Stat (fullpath (cache_id_to_path sg cache_path cache_id))) (files w) w)"
proof -
  let ?p = "cache_id_to_path sg cache_path cache_id"
  obtain e where "fst (sys_stat (fullpath ?p) w) = Inl e"
    using sys_stat_missing [OF assms] by blast
  then have "sys_stat (fullpath ?p) w = (Inl e, called (Stat (fullpath ?p)) (files w) w)"
    using sys_stat_world [of "fullpath ?p" w] by (simp add: prod_eq_iff)
  then show ?thesis by (simp add: command_get_def Let_def)
qed

lemma subdir_unknown_key: "get_subdir_for_id ''unknown-key'' = ''ewvt''"
proof -
  have "shard_accumulate bits_24_31 ''unknown-key'' = 7933681203963591804"
    by (simp add: shard_accumulate_def shard_step_def bits_24_31_def)
  then show ?thesis
    by (simp add: get_subdir_for_id_shard_name shard_name_def shard_letter_def char_of_def bit_0)
qed

lemma encode_unknown_key: "encode_id sg ''unknown-key'' = ''unknown-key''"
  by (simp add: encode_id_concat encode_byte_def escaped_def char_as_int_def)

lemma paths_unknown_key:
  "cache_id_to_path sg ''/c'' ''unknown-key'' =
     \<lparr>dirname = ''ewvt'', filename = ''unknown-key'', relpath = ''ewvt/unknown-key'',
      fullpath = ''/c/ewvt/unknown-key'', dirfullpath = ''/c/ewvt''\<rparr>"
  by (simp add: cache_id_to_path_def subdir_unknown_key encode_unknown_key str_join_path_two
      separator_def c_first_def Let_def)

section \<open>Deleting a missing entry\<close>

lemma sys_unlink_missing:
  "files w (canon p) = None \<Longrightarrow> faults w = [] \<Longrightarrow>
     sys_unlink p w = (Inl ENOENT, called (Unlink p) (files w) w)"
  by (simp add: sys_unlink_def next_fault_def)

lemma command_delete_missing:
  assumes "files w (canon (fullpath (cache_id_to_path sg cache_path cache_id))) = None" "faults w = []"
  shows "command_delete sg cache_path cache_id w
    = (0, called (Unlink (fullpath (cache_id_to_path sg cache_path cache_id))) (files w) w)"
  by (simp add: command_delete_def Let_def sys_unlink_missing [OF assms])

lemma command_delete_2_missing:
  assumes "files w (canon (fullpath (cache_id_to_path sg cache_path cache_id))) = None" "faults w = []"
  shows "command_delete_2 sg cache_path cache_id w
    = (RET_MISS, called (Unlink (fullpath (cache_id_to_path sg cache_path cache_id))) (files w) w)"
  by (simp add: command_delete_2_def Let_def sys_unlink_missing [OF assms])

lemma command_delete_2_missing_twice:
  assumes "files w (canon (fullpath (cache_id_to_path sg cache_path cache_id))) = None" "faults w = []"
  shows "fst (command_delete_2 sg cache_path cache_id w) = RET_MISS
    \<and> fst (command_delete_2 sg cache_path cache_id
             (snd (command_delete_2 sg cache_path cache_id w))) = RET_MISS"
proof -
  let ?w' = "called (Unlink (fullpath (cache_id_to_path sg cache_path cache_id))) (files w) w"
  have "files ?w' (canon (fullpath (cache_id_to_path sg cache_path cache_id))) = None"
    "faults ?w' = []"
    using assms by (simp_all add: called_fields)
  then have "fst (command_delete_2 sg cache_path cache_id ?w') = RET_MISS"
    by (simp add: command_delete_2_missing)
  then show ?thesis by (simp add: command_delete_2_missing [OF assms])
qed

lemma str_join_path_lock: "str_join_path ''/c'' [''.lock''] = ''/c/.lock''"
  by (simp add: str_join_path_two separator_def c_first_def)

text \<open>
  Claim C1, at the input where \<open>src/afilecache.c\<close> departs from it: deleting an
  identifier that has no entry exits with 0 there. The other copy of the program exits
  with the miss code 2, as the claim says.
\<close>

theorem delete_of_missing_entry_exits_0:
  "fst (main Src_afilecache_c sg [''afilecache'', ''/c'', ''delete'', ''unknown-key''] empty_cache)
     = Exit 0
   \<and> fst (main Other_copy sg [''afilecache'', ''/c'', ''delete'', ''unknown-key''] empty_cache)
     = Exit 2"
  by (simp add: main_def run_command_def empty_cache_def sys_stat_def sys_open_creat_append_def
      sys_flock_def next_fault_def called_def str_join_path_lock Let_def command_delete_def
      command_delete_2_def paths_unknown_key sys_unlink_def RET_MISS_def canon_values)

section \<open>The clean command\<close>

lemma command_clean_internal: "command_clean cache_path max_size_mb w = (RET_INTERNAL, w)"
  by (simp add: command_clean_def)

lemma main_clean:
  "main v sg argv w = (r, w') \<Longrightarrow> 3 \<le> length argv \<Longrightarrow> argv ! 2 = ''clean'' \<Longrightarrow>
     (r = Exit RET_USAGE \<or> r = Undefined_behaviour) \<and> w' = w"
  by (auto simp add: main_def Let_def arg_def split: if_splits)

text \<open>
  Claim C8, at the input where the code departs from it: with the argument list
  (root, \<open>clean\<close>, max-size) \<open>argc\<close> is 4, and \<open>main\<close> passes \<open>argv[4]\<close>, the null
  pointer that ends \<open>argv\<close>, to \<open>atoi\<close>. \<open>command_clean\<close> and its exit code 3 are
  never reached.
\<close>

theorem main_clean_reads_null_argument:
  "main v sg [''afilecache'', ''/c'', ''clean'', ''10''] w = (Undefined_behaviour, w)"
  by (simp add: main_def arg_def)

section \<open>What a run of put touches\<close>

lemma frame_refl: "frame P w w"
  by (simp add: frame_def)

lemma frame_trans:
  assumes "frame P w w1" "frame P w1 w2"
  shows "frame P w w2"
proof -
  from assms(1) obtain n1 where n1: "trace w1 = trace w @ n1"
    "\<forall>(c, fs) \<in> set n1. (\<forall>a b. c \<noteq> Rename a b) \<and> (\<forall>q. q \<notin> P \<longrightarrow> fs q = files w q)"
    and f1: "\<forall>q. q \<notin> P \<longrightarrow> files w1 q = files w q"
    unfolding frame_def by blast
  from assms(2) obtain n2 where n2: "trace w2 = trace w1 @ n2"
    "\<forall>(c, fs) \<in> set n2. (\<forall>a b. c \<noteq> Rename a b) \<and> (\<forall>q. q \<notin> P \<longrightarrow> fs q = files w1 q)"
    and f2: "\<forall>q. q \<notin> P \<longrightarrow> files w2 q = files w1 q"
    unfolding frame_def by blast
  have "trace w2 = trace w @ (n1 @ n2)" using n1(1) n2(1) by simp
  moreover have
    "\<forall>(c, fs) \<in> set (n1 @ n2). (\<forall>a b. c \<noteq> Rename a b) \<and> (\<forall>q. q \<notin> P \<longrightarrow> fs q = files w q)"
    using n1(2) n2(2) f1 by fastforce
  moreover have "\<forall>q. q \<notin> P \<longrightarrow> files w2 q = files w q"
    using f1 f2 by simp
  ultimately show ?thesis unfolding frame_def by blast
qed

lemma frame_called:
  assumes "\<And>a b. c \<noteq> Rename a b" "\<And>q. q \<notin> P \<Longrightarrow> fs q = files w q"
  shows "frame P w (called c fs w)"
  unfolding frame_def using assms by (simp add: called_fields)

lemma frame_then_called:
  assumes "frame P w0 w" "\<And>a b. c \<noteq> Rename a b" "\<And>q. q \<notin> P \<Longrightarrow> fs q = files w q"
  shows "frame P w0 (called c fs w)"
  using assms(1) frame_called [of c P fs w, OF assms(2,3)] by (rule frame_trans)

lemma sys_stat_frame: "sys_stat p w = (x, w') \<Longrightarrow> frame P w0 w \<Longrightarrow> frame P w0 w'"
  by (auto simp add: sys_stat_def intro: frame_then_called)

lemma sys_mkdir_frame:
  "sys_mkdir p w = (x, w') \<Longrightarrow> canon p \<in> P \<Longrightarrow> frame P w0 w \<Longrightarrow> frame P w0 w'"
  by (auto simp add: sys_mkdir_def intro!: frame_then_called split: fault.splits option.splits)

lemma sys_unlink_frame:
  "sys_unlink p w = (x, w') \<Longrightarrow> canon p \<in> P \<Longrightarrow> frame P w0 w \<Longrightarrow> frame P w0 w'"
  by (auto simp add: sys_unlink_def intro!: frame_then_called
      split: fault.splits option.splits node.splits)

lemma sys_open_rdonly_frame:
  "sys_open_rdonly p w = (x, w') \<Longrightarrow> frame P w0 w \<Longrightarrow> frame P w0 w'"
  by (auto simp add: sys_open_rdonly_def intro: frame_then_called)

lemma sys_malloc_frame: "sys_malloc w = (x, w') \<Longrightarrow> frame P w0 w \<Longrightarrow> frame P w0 w'"
  by (auto simp add: sys_malloc_def intro: frame_then_called)

lemma sys_open_creat_excl_frame:
  "sys_open_creat_excl p w = (x, w') \<Longrightarrow> canon p \<in> P \<Longrightarrow> frame P w0 w \<Longrightarrow> frame P w0 w'"
  by (auto simp add: sys_open_creat_excl_def intro!: frame_then_called
      split: fault.splits option.splits)

lemma sys_read_frame: "sys_read src n w = (x, w') \<Longrightarrow> frame P w0 w \<Longrightarrow> frame P w0 w'"
  by (auto simp add: sys_read_def intro: frame_then_called)

lemma append_to_other: "p \<in> P \<Longrightarrow> q \<notin> P \<Longrightarrow> append_to p bytes fs q = fs q"
  by (auto simp add: append_to_def split: option.splits node.splits)

lemma sys_write_frame:
  "sys_write p bytes w = (x, w') \<Longrightarrow> canon p \<in> P \<Longrightarrow> frame P w0 w \<Longrightarrow> frame P w0 w'"
  by (auto simp add: sys_write_def Let_def append_to_other intro!: frame_then_called
      split: fault.splits)

lemma sys_close_from_frame: "frame P w0 w \<Longrightarrow> frame P w0 (sys_close_from w)"
  by (auto simp add: sys_close_from_def intro: frame_then_called)

lemma sys_close_to_frame: "sys_close_to p w = (x, w') \<Longrightarrow> frame P w0 w \<Longrightarrow> frame P w0 w'"
  by (auto simp add: sys_close_to_def intro: frame_then_called)

lemma cp_write_frame:
  "cp_write to pending w = (x, w') \<Longrightarrow> canon to \<in> P \<Longrightarrow> frame P w0 w \<Longrightarrow> frame P w0 w'"
proof (induction to pending w arbitrary: x w' rule: cp_write.induct)
  case (1 to pending w)
  obtain y w1 where s: "sys_write to pending w = (y, w1)"
    by (cases "sys_write to pending w")
  then have f: "frame P w0 w1"
    using "1.prems"(2,3) by (rule sys_write_frame)
  show ?case
  proof (cases y)
    case (Inr nwritten)
    show ?thesis
    proof (cases "nwritten < length pending")
      case True
      with "1.prems"(1) s Inr
      have "cp_write to (drop nwritten pending) w1 = (x, w')"
        by (simp add: cp_write.simps [of to pending w])
      with "1.IH"(2) [OF s [symmetric] Inr True _ "1.prems"(2) f] show ?thesis by simp
    next
      case False
      with "1.prems"(1) s Inr f show ?thesis
        by (simp add: cp_write.simps [of to pending w])
    qed
  next
    case (Inl e)
    show ?thesis
    proof (cases "e \<noteq> EINTR")
      case True
      with "1.prems"(1) s Inl f show ?thesis
        by (simp add: cp_write.simps [of to pending w])
    next
      case eintr: False
      show ?thesis
      proof (cases "0 < length pending")
        case True
        with "1.prems"(1) s Inl eintr
        have "cp_write to pending w1 = (x, w')"
          by (simp add: cp_write.simps [of to pending w])
        with "1.IH"(1) [OF s [symmetric] Inl eintr True _ "1.prems"(2) f] show ?thesis by simp
      next
        case False
        with "1.prems"(1) s Inl eintr f show ?thesis
          by (simp add: cp_write.simps [of to pending w])
      qed
    qed
  qed
qed

lemma cp_loop_frame:
  "cp_loop to src w = (x, w') \<Longrightarrow> canon to \<in> P \<Longrightarrow> frame P w0 w \<Longrightarrow> frame P w0 w'"
proof (induction to src w arbitrary: x w' rule: cp_loop.induct)
  case (1 to src w)
  obtain y w1 where s: "sys_read src buf_size w = (y, w1)"
    by (cases "sys_read src buf_size w")
  then have f: "frame P w0 w1"
    using "1.prems"(3) by (rule sys_read_frame)
  show ?case
  proof (cases y)
    case (Inl e)
    with "1.prems"(1) s f show ?thesis
      by (simp add: cp_loop.simps [of to src w])
  next
    case (Inr z)
    obtain chunk src' where z: "z = (chunk, src')" by (cases z)
    show ?thesis
    proof (cases "0 < length chunk")
      case False
      with "1.prems"(1) s Inr z f show ?thesis
        by (simp add: cp_loop.simps [of to src w])
    next
      case True
      obtain ok w2 where c: "cp_write to chunk w1 = (ok, w2)"
        by (cases "cp_write to chunk w1")
      then have f2: "frame P w0 w2"
        using "1.prems"(2) f by (rule cp_write_frame)
      show ?thesis
      proof (cases ok)
        case False
        with "1.prems"(1) s Inr z True c f2 show ?thesis
          by (simp add: cp_loop.simps [of to src w])
      next
        case ok: True
        then have okT: "ok = True" by simp
        from ok "1.prems"(1) s Inr z True c
        have "cp_loop to src' w2 = (x, w')"
          by (simp add: cp_loop.simps [of to src w])
        with "1.IH" [OF s [symmetric] Inr z [symmetric] True c [symmetric] okT _ "1.prems"(2) f2]
        show ?thesis by simp
      qed
    qed
  qed
qed

lemma sys_close_to_frame_snd: "frame P w0 w \<Longrightarrow> frame P w0 (snd (sys_close_to p w))"
  using sys_close_to_frame [of p w "fst (sys_close_to p w)" "snd (sys_close_to p w)" P w0]
  by simp

lemma close_indeterminate_frame: "frame P w0 w \<Longrightarrow> frame P w0 (close_indeterminate w)"
  by (auto simp add: close_indeterminate_def frame_def called_def split: fault.splits)

lemma cp_frame:
  assumes "cp v to from w = (r, w')" "canon to \<in> P" "frame P w0 w"
  shows "frame P w0 w'"
  using assms unfolding cp_def
  by (auto split: prod.splits sum.splits bool.splits copied.splits version.splits
      intro: sys_close_from_frame sys_close_to_frame_snd close_indeterminate_frame
      dest!: sys_open_rdonly_frame [where P = P and ?w0.0 = w0]
        sys_malloc_frame [where P = P and ?w0.0 = w0]
        sys_open_creat_excl_frame [where P = P and ?w0.0 = w0]
        cp_loop_frame [where P = P and ?w0.0 = w0]
        sys_close_to_frame [where P = P and ?w0.0 = w0])

lemma put_rename_step:
  assumes "put_rename p w2 = (r, w')"
  shows "trace w' = trace w2 @ [(Rename (tmpfilename p) (fullpath p), files w')]
    \<and> (r \<noteq> 0 \<longrightarrow> files w' = files w2)"
  using assms
  by (auto simp add: put_rename_def sys_rename_def called_fields RET_FILE_OPS_def
      split: fault.splits option.splits if_splits)

lemma put_copy_frame:
  assumes "put_copy v p source_file_path w = (r, w')" "canon (tmpfilename p) \<in> P" "frame P w0 w"
  shows "(r \<noteq> 0 \<and> frame P w0 w') \<or> (\<exists>w2. frame P w0 w2 \<and> put_rename p w2 = (r, w'))"
proof -
  obtain x w1 where u: "sys_unlink (tmpfilename p) w = (x, w1)"
    by (cases "sys_unlink (tmpfilename p) w")
  then have f1: "frame P w0 w1"
    using assms(2,3) by (rule sys_unlink_frame)
  obtain c w2 where c: "cp v (tmpfilename p) source_file_path w1 = (c, w2)"
    by (cases "cp v (tmpfilename p) source_file_path w1")
  then have f2: "frame P w0 w2"
    using assms(2) f1 by (rule cp_frame)
  from assms(1) u c f1 f2 show ?thesis
    by (auto simp add: put_copy_def RET_FILE_OPS_def split: sum.splits if_splits)
qed

lemma command_put_frame:
  assumes "command_put v sg cache_path cache_id source_file_path w = (r, w')"
    and "canon (tmpfilename (cache_id_to_path sg cache_path cache_id)) \<in> P"
    and "canon (dirfullpath (cache_id_to_path sg cache_path cache_id)) \<in> P"
  shows "(r \<noteq> 0 \<and> frame P w w')
    \<or> (\<exists>w2. frame P w w2 \<and> put_rename (cache_id_to_path sg cache_path cache_id) w2 = (r, w'))"
proof -
  let ?p = "cache_id_to_path sg cache_path cache_id"
  obtain x w1 where s: "sys_stat (dirfullpath ?p) w = (x, w1)"
    by (cases "sys_stat (dirfullpath ?p) w")
  then have f1: "frame P w w1"
    using frame_refl by (rule sys_stat_frame)
  show ?thesis
  proof (cases x)
    case (Inr n)
    show ?thesis
    proof (cases "n \<noteq> Dir")
      case True
      with assms(1) s Inr f1 show ?thesis
        by (simp add: command_put_def Let_def RET_FILE_OPS_def)
    next
      case False
      with assms(1) s Inr have "put_copy v ?p source_file_path w1 = (r, w')"
        by (simp add: command_put_def Let_def)
      then show ?thesis using assms(2) f1 by (rule put_copy_frame)
    qed
  next
    case (Inl e)
    obtain y w2 where m: "sys_mkdir (dirfullpath ?p) w1 = (y, w2)"
      by (cases "sys_mkdir (dirfullpath ?p) w1")
    then have f2: "frame P w w2"
      using assms(3) f1 by (rule sys_mkdir_frame)
    show ?thesis
    proof (cases y)
      case (Inl e')
      with assms(1) s \<open>x = Inl e\<close> m f2 show ?thesis
        by (simp add: command_put_def Let_def RET_FILE_OPS_def)
    next
      case (Inr u)
      with assms(1) s \<open>x = Inl e\<close> m have "put_copy v ?p source_file_path w2 = (r, w')"
        by (simp add: command_put_def Let_def)
      then show ?thesis using assms(2) f2 by (rule put_copy_frame)
    qed
  qed
qed

lemma frame_steps:
  assumes "frame P w w'"
  shows "\<exists>new. trace w' = trace w @ new
    \<and> (\<forall>i < length new. \<forall>a b. fst (new ! i) \<noteq> Rename a b)
    \<and> (\<forall>i < length new. \<forall>q. q \<notin> P \<longrightarrow> snd (new ! i) q = files w q)
    \<and> (\<forall>q. q \<notin> P \<longrightarrow> files w' q = files w q)"
proof -
  from assms obtain new where n: "trace w' = trace w @ new"
    "\<forall>(c, fs) \<in> set new. (\<forall>a b. c \<noteq> Rename a b) \<and> (\<forall>q. q \<notin> P \<longrightarrow> fs q = files w q)"
    and f: "\<forall>q. q \<notin> P \<longrightarrow> files w' q = files w q"
    unfolding frame_def by blast
  have "(\<forall>a b. fst (new ! i) \<noteq> Rename a b) \<and> (\<forall>q. q \<notin> P \<longrightarrow> snd (new ! i) q = files w q)"
    if "i < length new" for i
  proof -
    from that have "new ! i \<in> set new" by simp
    with n(2) show ?thesis by (cases "new ! i") auto
  qed
  with n(1) f show ?thesis by blast
qed

section \<open>The copy primitive when the buffer is not allocated\<close>

text \<open>
  When \<open>malloc\<close> fails, the copy \<open>src/afilecache.c\<close> may close a descriptor that \<open>cp\<close>
  never opened; the other copy does not.
\<close>

lemma cp_malloc_failure:
  "map fst (trace (snd (cp Src_afilecache_c ''out'' ''/src''
      (root_and_source\<lparr>faults := [Proceed, Fail ENOMEM]\<rparr>))))
     = [Open_rdonly ''/src'', Malloc, Close_from, Close_stray]"
  "map fst (trace (snd (cp Src_afilecache_c ''out'' ''/src''
      (root_and_source\<lparr>faults := [Proceed, Fail ENOMEM, Proceed, Fail EIO]\<rparr>))))
     = [Open_rdonly ''/src'', Malloc, Close_from]"
  "map fst (trace (snd (cp Other_copy ''out'' ''/src''
      (root_and_source\<lparr>faults := [Proceed, Fail ENOMEM]\<rparr>))))
     = [Open_rdonly ''/src'', Malloc, Close_from]"
  "fst (cp v ''out'' ''/src'' (root_and_source\<lparr>faults := [Proceed, Fail ENOMEM]\<rparr>)) = - 1"
  "files (snd (cp v ''out'' ''/src'' (root_and_source\<lparr>faults := [Proceed, Fail ENOMEM]\<rparr>)))
     = files root_and_source"
  by (simp_all add: cp_def sys_open_rdonly_def sys_malloc_def sys_close_from_def
      close_indeterminate_def next_fault_def called_def root_and_source_def canon_values
      split: version.splits)

section \<open>What a successful put installs\<close>

text \<open>
  The inner loop writes all the pending bytes or fails, the outer loop ends with
  \<open>nread\<close> zero only when every byte of the source is written, and \<open>cp\<close> returns 0
  only with the whole content of the source in the file it created.
\<close>

lemma cp_write_content:
  assumes "cp_write to pending w = (True, w')" "files w (canon to) = Some (File x)"
  shows "files w' (canon to) = Some (File (x @ pending))"
  using assms
proof (induction to pending w arbitrary: x rule: cp_write.induct)
  case (1 to pending w)
  obtain res w1 where s: "sys_write to pending w = (res, w1)"
    by (cases "sys_write to pending w")
  show ?case
  proof (cases res)
    case (Inl e)
    with s have f: "files w1 = files w"
      by (auto simp add: sys_write_def called_def Let_def split: fault.splits)
    show ?thesis
    proof (cases "e = EINTR \<and> 0 < length pending")
      case True
      with "1.prems"(1) s Inl have "cp_write to pending w1 = (True, w')"
        by (simp add: cp_write.simps [of to pending w])
      with "1.IH"(1) [OF s [symmetric] Inl _ _ _] True f "1.prems"(2) show ?thesis
        by simp
    next
      case False
      with "1.prems" s Inl f show ?thesis
        by (auto simp add: cp_write.simps [of to pending w] split: if_splits)
    qed
  next
    case (Inr k)
    with s "1.prems"(2) have f: "files w1 (canon to) = Some (File (x @ take k pending))"
      and k: "k \<le> length pending"
      by (auto simp add: sys_write_def called_def Let_def append_to_def split: fault.splits)
    show ?thesis
    proof (cases "k < length pending")
      case True
      with "1.prems"(1) s Inr have "cp_write to (drop k pending) w1 = (True, w')"
        by (simp add: cp_write.simps [of to pending w])
      with "1.IH"(2) [OF s [symmetric] Inr True _ f] show ?thesis
        by simp
    next
      case False
      with "1.prems"(1) s Inr f k show ?thesis
        by (simp add: cp_write.simps [of to pending w])
    qed
  qed
qed

lemma sys_read_chunk:
  assumes "sys_read src n w = (Inr (chunk, src'), w1)" "0 < n"
  shows "\<exists>c k. src = File c \<and> chunk = take k c \<and> src' = File (drop k c) \<and> (k = 0 \<longrightarrow> c = [])"
proof (cases src)
  case Dir
  with assms show ?thesis
    by (auto simp add: sys_read_def split: fault.splits)
next
  case (File c)
  define k where "k = (case next_fault w of Short m \<Rightarrow> min (Suc m) (min n (length c))
                                | _ \<Rightarrow> min n (length c))"
  from assms File have a: "chunk = take k c \<and> src' = File (drop k c)"
    unfolding k_def by (auto simp add: sys_read_def Let_def split: fault.splits)
  from assms(2) have b: "k = 0 \<longrightarrow> c = []"
    unfolding k_def by (auto simp add: min_def split: fault.splits if_splits)
  from File a b show ?thesis
    by blast
qed

lemma cp_loop_content:
  assumes "cp_loop to src w = (Nread_zero, w')" "files w (canon to) = Some (File x)"
  shows "\<exists>c. src = File c \<and> files w' (canon to) = Some (File (x @ c))"
  using assms
proof (induction to src w arbitrary: x rule: cp_loop.induct)
  case (1 to src w)
  obtain res w1 where s: "sys_read src buf_size w = (res, w1)"
    by (cases "sys_read src buf_size w")
  then have f: "files w1 = files w"
    by (auto simp add: sys_read_def called_def)
  show ?case
  proof (cases res)
    case (Inl e)
    with "1.prems"(1) s show ?thesis
      by (simp add: cp_loop.simps [of to src w])
  next
    case (Inr z)
    obtain chunk src' where z: "z = (chunk, src')" by (cases z)
    from s Inr z have "sys_read src buf_size w = (Inr (chunk, src'), w1)" by simp
    from sys_read_chunk [OF this]
    obtain c k where c: "src = File c" "chunk = take k c" "src' = File (drop k c)"
      "k = 0 \<longrightarrow> c = []"
      by (auto simp add: buf_size_def)
    show ?thesis
    proof (cases "0 < length chunk")
      case False
      with c have e: "c = []" by auto
      from "1.prems"(1) s Inr z False have "w' = w1"
        by (simp add: cp_loop.simps [of to src w])
      with "1.prems"(2) f c(1) e show ?thesis
        by simp
    next
      case True
      obtain ok w2 where w: "cp_write to chunk w1 = (ok, w2)"
        by (cases "cp_write to chunk w1")
      show ?thesis
      proof (cases ok)
        case False
        with "1.prems"(1) s Inr z True w show ?thesis
          by (simp add: cp_loop.simps [of to src w])
      next
        case ok: True
        then have okT: "ok = True" by simp
        from w ok f "1.prems"(2) have f2: "files w2 (canon to) = Some (File (x @ chunk))"
          using cp_write_content [of to chunk w1 w2 x] by simp
        from ok "1.prems"(1) s Inr z True w
        have "cp_loop to src' w2 = (Nread_zero, w')"
          by (simp add: cp_loop.simps [of to src w])
        from "1.IH" [OF s [symmetric] Inr z [symmetric] True w [symmetric] okT this f2] c
        show ?thesis by simp
      qed
    qed
  qed
qed

lemma cp_result: "cp v to from w = (r, w') \<Longrightarrow> r = 0 \<or> r = - 1"
  unfolding cp_def
  by (auto split: prod.splits sum.splits bool.splits copied.splits)

lemma cp_success:
  assumes "cp v to from w = (0, w')"
  shows "\<exists>c. files w (canon from) = Some (File c) \<and> files w (canon to) = None
    \<and> files w' (canon to) = Some (File c)"
proof -
  from assms obtain src w1 w2 w3 w4 w5 u u' where
    o: "sys_open_rdonly from w = (Inr src, w1)" and
    m: "sys_malloc w1 = (True, w2)" and
    c: "sys_open_creat_excl to w2 = (Inr u, w3)" and
    l: "cp_loop to src w3 = (Nread_zero, w4)" and
    t: "sys_close_to to w4 = (Inr u', w5)" and
    w': "w' = sys_close_from w5"
    unfolding cp_def
    by (auto split: prod.splits sum.splits bool.splits copied.splits version.splits)
  from o have o': "files w (canon from) = Some src" "files w1 = files w"
    by (auto simp add: sys_open_rdonly_def called_def split: fault.splits option.splits)
  from m have m': "files w2 = files w1"
    by (auto simp add: sys_malloc_def called_def)
  from c have c': "files w2 (canon to) = None" "files w3 (canon to) = Some (File [])"
    by (auto simp add: sys_open_creat_excl_def called_def split: fault.splits option.splits)
  from cp_loop_content [OF l c'(2)] obtain x where
    x: "src = File x" "files w4 (canon to) = Some (File x)"
    by auto
  from t have "files w5 = files w4"
    by (auto simp add: sys_close_to_def called_def)
  with w' have "files w' = files w4"
    by (simp add: sys_close_from_def called_def)
  with o' m' c' x show ?thesis by simp
qed

lemma put_rename_success:
  assumes "put_rename p w = (0, w')" "files w (canon (tmpfilename p)) = Some n"
  shows "files w' (canon (fullpath p)) = Some n"
  using assms
  by (auto simp add: put_rename_def sys_rename_def called_def RET_FILE_OPS_def
      split: prod.splits sum.splits fault.splits option.splits if_splits)

lemma sys_unlink_files:
  assumes "sys_unlink p w = (x, w')"
  shows "files w' = files w \<or> (files w' = (files w)(canon p := None) \<and> (\<exists>c. files w (canon p) = Some (File c)))"
  using assms
  by (auto simp add: sys_unlink_def called_def
      split: fault.splits option.splits node.splits)

lemma put_copy_success:
  assumes "put_copy v p source_file_path w = (0, w')"
  shows "\<exists>c. files w (canon source_file_path) = Some (File c)
    \<and> files w' (canon (fullpath p)) = Some (File c)"
proof -
  from assms obtain x w1 k w2 where
    u: "sys_unlink (tmpfilename p) w = (x, w1)" and
    k: "cp v (tmpfilename p) source_file_path w1 = (k, w2)" "\<not> k < 0" and
    r: "put_rename p w2 = (0, w')"
    unfolding put_copy_def
    by (auto simp add: RET_FILE_OPS_def split: prod.splits sum.splits if_splits)
  from cp_result [OF k(1)] k(2) have "k = 0"
    by auto
  with k(1) have c: "cp v (tmpfilename p) source_file_path w1 = (0, w2)"
    by simp
  from cp_success [OF c] obtain y where
    y: "files w1 (canon source_file_path) = Some (File y)"
      "files w1 (canon (tmpfilename p)) = None"
      "files w2 (canon (tmpfilename p)) = Some (File y)"
    by auto
  from sys_unlink_files [OF u] y(1,2)
  have "files w (canon source_file_path) = Some (File y)"
    by (auto split: if_splits)
  with put_rename_success [OF r y(3)] show ?thesis by simp
qed

lemma command_put_success:
  assumes "command_put v sg cache_path cache_id source_file_path w = (0, w')"
  shows "\<exists>c. files w (canon source_file_path) = Some (File c)
    \<and> files w' (canon (fullpath (cache_id_to_path sg cache_path cache_id))) = Some (File c)"
proof -
  let ?p = "cache_id_to_path sg cache_path cache_id"
  from assms obtain w1 where
    p: "put_copy v ?p source_file_path w1 = (0, w')" and
    f: "files w1 = files w
        \<or> files w1 = (files w)(canon (dirfullpath ?p) \<mapsto> Dir)"
    unfolding command_put_def Let_def
    by (auto simp add: sys_stat_def sys_mkdir_def called_def RET_FILE_OPS_def
        split: prod.splits sum.splits if_splits fault.splits option.splits)
  from put_copy_success [OF p] obtain c where
    c: "files w1 (canon source_file_path) = Some (File c)"
      "files w' (canon (fullpath ?p)) = Some (File c)"
    by auto
  from f c(1) have "files w (canon source_file_path) = Some (File c)"
    by (auto split: if_splits)
  with c(2) show ?thesis by simp
qed

section \<open>The canonical paths of an entry\<close>

lemma components_one: "CHR ''/'' \<notin> set f \<Longrightarrow> components cur f = [cur @ f]"
  by (induction f arbitrary: cur) auto

lemma components_append:
  "CHR ''/'' \<notin> set f \<Longrightarrow> components cur (d @ CHR ''/'' # f) = components cur d @ [f]"
proof (induction d arbitrary: cur)
  case Nil
  then show ?case using components_one [of f "[]"] by simp
next
  case (Cons c d)
  then show ?case by simp
qed

lemma c_first_append: "d \<noteq> [] \<Longrightarrow> c_first (d @ e) = c_first d"
  by (cases d) (simp_all add: c_first_def)

lemma canon_append:
  assumes "d \<noteq> []" "CHR ''/'' \<notin> set f"
  shows "canon (d @ CHR ''/'' # f) = (fst (canon d), enter (fst (canon d)) (snd (canon d)) f)"
  using assms by (simp add: canon_def components_append c_first_append)

lemma enter_name: "f \<noteq> [] \<Longrightarrow> f \<noteq> ''.'' \<Longrightarrow> f \<noteq> ''..'' \<Longrightarrow> enter a dir f = dir @ [f]"
  by (simp add: enter_def)

lemma canon_entry:
  assumes "d \<noteq> []" "CHR ''/'' \<notin> set f" "f \<noteq> []" "f \<noteq> ''.''" "f \<noteq> ''..''"
  shows "canon (d @ CHR ''/'' # f) = (fst (canon d), snd (canon d) @ [f])"
  using assms by (simp add: canon_append enter_name)

lemma encode_id_empty: "encode_id sg ident = [] \<Longrightarrow> ident = []"
  using encode_id_length [of ident sg] by simp

lemma encode_byte_dot: "encode_byte sg c = CHR ''.'' # rest \<Longrightarrow> c = CHR ''.'' \<and> rest = []"
  using encode_byte_escaped_hd [of sg c]
  by (cases "escaped sg c") (auto simp add: encode_byte_unescaped)

lemma encode_id_dot: "encode_id sg ident = ''.'' \<Longrightarrow> ident = ''.''"
proof -
  assume e: "encode_id sg ident = ''.''"
  with encode_id_length [of ident sg] have "length ident \<le> 1" by simp
  moreover from e have "ident \<noteq> []" by (auto simp add: encode_id_concat)
  ultimately obtain c where c: "ident = [c]"
    by (cases ident) auto
  with e have "encode_byte sg c = ''.''" by (simp add: encode_id_concat)
  with c show ?thesis by (simp add: encode_byte_dot)
qed

lemma encode_id_dot_dot: "encode_id sg ident = ''..'' \<Longrightarrow> ident = ''..''"
proof -
  assume e: "encode_id sg ident = ''..''"
  with encode_id_length [of ident sg] have l: "length ident \<le> 2" by simp
  from e obtain a rest where i: "ident = a # rest"
    by (cases ident) (auto simp add: encode_id_concat)
  with e have ab: "encode_byte sg a @ encode_id sg rest = ''..''"
    by (simp add: encode_id_concat)
  from encode_byte_length [of sg a] obtain x xs where x: "encode_byte sg a = x # xs"
    by (cases "encode_byte sg a") auto
  with ab have "x = CHR ''.''" by simp
  with x have a: "a = CHR ''.''" "encode_byte sg a = ''.''"
    using encode_byte_dot [of sg a xs] by simp_all
  with ab have "encode_id sg rest = ''.''" by simp
  then have "rest = ''.''" by (rule encode_id_dot)
  with i a show ?thesis by simp
qed

lemma dirfullpath_nonempty: "dirfullpath (cache_id_to_path sg cache_path cache_id) \<noteq> []"
proof -
  obtain a b c d where "get_subdir_for_id cache_id = [a, b, c, d]"
    using get_subdir_for_id_shape [of cache_id] by blast
  then show ?thesis by (simp add: cache_id_to_path_fields str_join_path_two)
qed

lemma canon_fullpath:
  assumes "cache_id \<noteq> []" "cache_id \<noteq> ''.''" "cache_id \<noteq> ''..''"
  shows "canon (fullpath (cache_id_to_path sg cache_path cache_id))
    = (fst (canon (dirfullpath (cache_id_to_path sg cache_path cache_id))),
       snd (canon (dirfullpath (cache_id_to_path sg cache_path cache_id))) @ [encode_id sg cache_id])"
proof -
  have "encode_id sg cache_id \<noteq> []" "encode_id sg cache_id \<noteq> ''.''"
    "encode_id sg cache_id \<noteq> ''..''"
    using assms encode_id_empty encode_id_dot encode_id_dot_dot by blast+
  then show ?thesis
    using canon_entry [OF dirfullpath_nonempty encode_id_no_slash, of sg cache_id sg cache_path cache_id]
    by (simp add: fullpath_eq)
qed

lemma canon_tmpfilename:
  "canon (tmpfilename (cache_id_to_path sg cache_path cache_id))
    = (fst (canon (dirfullpath (cache_id_to_path sg cache_path cache_id))),
       snd (canon (dirfullpath (cache_id_to_path sg cache_path cache_id))) @ [''.?tmpfile''])"
  using canon_entry [OF dirfullpath_nonempty, of "''.?tmpfile''" sg cache_path cache_id]
  by (simp add: tmpfilename_eq)

lemma canon_fullpath_apart:
  assumes "cache_id \<noteq> []" "cache_id \<noteq> ''.''" "cache_id \<noteq> ''..''"
  shows "canon (fullpath (cache_id_to_path sg cache_path cache_id))
      \<noteq> canon (tmpfilename (cache_id_to_path sg cache_path cache_id))"
    and "canon (fullpath (cache_id_to_path sg cache_path cache_id))
      \<noteq> canon (dirfullpath (cache_id_to_path sg cache_path cache_id))"
  using encode_id_not_tmpfile [of sg cache_id]
  by (simp_all add: canon_fullpath [OF assms] canon_tmpfilename prod_eq_iff)

section \<open>Get on a missing entry\<close>

text \<open>
  Claim C9, amended: for every identifier other than \<open>.\<close> and \<open>..\<close> (and not empty, as
  \<open>main\<close> ensures) the entry path is the name of the encoded identifier inside the
  shard directory, and when nothing is at that path (there is no entry for the
  identifier), \<open>get\<close> returns the miss code 2, which is none of the other codes, and
  its only call is the \<open>stat\<close> of the entry path: the file system is as it was, so the
  destination is neither created nor unlinked nor written.
\<close>

theorem command_get_miss:
  assumes "cache_id \<noteq> []" "cache_id \<noteq> ''.''" "cache_id \<noteq> ''..''"
    and "files w (canon (fullpath (cache_id_to_path sg cache_path cache_id))) = None"
  shows "canon (fullpath (cache_id_to_path sg cache_path cache_id))
      = (fst (canon (dirfullpath (cache_id_to_path sg cache_path cache_id))),
         snd (canon (dirfullpath (cache_id_to_path sg cache_path cache_id)))
           @ [encode_id sg cache_id])
    \<and> fst (command_get v sg cache_path cache_id dest w) = RET_MISS
    \<and> RET_MISS = 2
    \<and> RET_MISS \<notin> {0, RET_USAGE, RET_INTERNAL, RET_NO_CACHE_DIR, RET_FILE_OPS, RET_LOCK}
    \<and> files (snd (command_get v sg cache_path cache_id dest w)) = files w
    \<and> trace (snd (command_get v sg cache_path cache_id dest w))
        = trace w @ [(Stat (fullpath (cache_id_to_path sg cache_path cache_id)), files w)]"
proof -
  have "RET_MISS = 2
      \<and> RET_MISS \<notin> {0, RET_USAGE, RET_INTERNAL, RET_NO_CACHE_DIR, RET_FILE_OPS, RET_LOCK}"
    by (simp add: RET_MISS_def RET_USAGE_def RET_INTERNAL_def RET_NO_CACHE_DIR_def
        RET_FILE_OPS_def RET_LOCK_def)
  with canon_fullpath [OF assms(1,2,3), of sg cache_path] show ?thesis
    by (simp add: command_get_missing [OF assms(4)] called_fields)
qed

text \<open>
  The scenario of the specification: \<open>get\<close> of an unknown key in an empty cache
  returns 2 and leaves \<open>out\<close> absent.
\<close>

theorem command_get_miss_witness:
  "''unknown-key'' \<noteq> [] \<and> ''unknown-key'' \<noteq> ''.'' \<and> ''unknown-key'' \<noteq> ''..''
   \<and> files empty_cache (canon (fullpath (cache_id_to_path True ''/c'' ''unknown-key''))) = None
   \<and> fst (command_get Src_afilecache_c True ''/c'' ''unknown-key'' ''out'' empty_cache) = 2
   \<and> files (snd (command_get Src_afilecache_c True ''/c'' ''unknown-key'' ''out'' empty_cache))
        (canon ''out'') = None
   \<and> trace (snd (command_get Src_afilecache_c True ''/c'' ''unknown-key'' ''out'' empty_cache))
       = [(Stat ''/c/ewvt/unknown-key'', files empty_cache)]"
proof -
  have h: "files empty_cache (canon (fullpath (cache_id_to_path True ''/c'' ''unknown-key''))) = None"
    by (simp add: paths_unknown_key empty_cache_def canon_values)
  have d: "''unknown-key'' \<noteq> []" "''unknown-key'' \<noteq> ''.''" "''unknown-key'' \<noteq> ''..''"
    by simp_all
  show ?thesis
    using command_get_miss [OF d h, of Src_afilecache_c "''out''"] h
    by (simp add: paths_unknown_key) (simp add: empty_cache_def canon_values)
qed

text \<open>
  Claim C9 as stated fails for the identifier \<open>.\<close>: its entry path \<open>/c/vbaa/.\<close> is the
  shard directory, so with that directory present there is no entry, yet the \<open>stat\<close>
  of the entry path succeeds. \<open>get\<close> then unlinks the destination, creates it again,
  fails to read a directory, unlinks the destination once more and returns 5: the
  destination file is lost, and the code is not the miss code.
\<close>

theorem command_get_dot_unlinks_destination:
  "files shard_and_destination (canon (fullpath (cache_id_to_path True ''/c'' ''.''))) = Some Dir
   \<and> files shard_and_destination (canon ''out'') = Some (File ''precious'')
   \<and> fst (command_get Src_afilecache_c True ''/c'' ''.'' ''out'' shard_and_destination) = 5
   \<and> files (snd (command_get Src_afilecache_c True ''/c'' ''.'' ''out'' shard_and_destination))
        (canon ''out'') = None
   \<and> map fst (trace (snd (command_get Src_afilecache_c True ''/c'' ''.'' ''out'' shard_and_destination)))
       = [Stat ''/c/vbaa/.'', Unlink ''out'', Open_rdonly ''/c/vbaa/.'', Malloc,
          Open_creat_excl ''out'', Read_from, Close_from, Close_to ''out'', Unlink ''out'']"
  by (simp add: command_get_def Let_def paths_dot
      sys_stat_def sys_unlink_def sys_open_rdonly_def sys_malloc_def
      sys_open_creat_excl_def sys_read_def sys_write_def sys_close_from_def sys_close_to_def
      append_to_def next_fault_def called_def cp_def cp_loop.simps
      cp_write.simps buf_size_def shard_and_destination_def RET_FILE_OPS_def canon_values
      canon_values_dot)

section \<open>The steps of put\<close>

lemma command_put_steps:
  assumes "command_put v sg cache_path cache_id source_file_path w = (r, w')"
    and "cache_id \<noteq> []" "cache_id \<noteq> ''.''" "cache_id \<noteq> ''..''"
  defines "p \<equiv> cache_id_to_path sg cache_path cache_id"
  shows "trace w' = trace w @ steps_since w w'
    \<and> (\<forall>i < length (steps_since w w').
          fst (steps_since w w' ! i) \<noteq> Rename (tmpfilename p) (fullpath p) \<longrightarrow>
          snd (steps_since w w' ! i) (canon (fullpath p)) = files w (canon (fullpath p))
          \<and> (\<forall>q. q \<noteq> canon (tmpfilename p) \<longrightarrow> q \<noteq> canon (dirfullpath p) \<longrightarrow>
                snd (steps_since w w' ! i) q = files w q))
    \<and> (\<forall>i < length (steps_since w w').
          fst (steps_since w w' ! i) = Rename (tmpfilename p) (fullpath p) \<longrightarrow>
          Suc i = length (steps_since w w'))
    \<and> (r \<noteq> 0 \<longrightarrow> files w' (canon (fullpath p)) = files w (canon (fullpath p)))
    \<and> (r = 0 \<longrightarrow> steps_since w w' \<noteq> []
          \<and> fst (last (steps_since w w')) = Rename (tmpfilename p) (fullpath p))"
proof -
  let ?P = "{canon (tmpfilename p), canon (dirfullpath p)}"
  have full: "canon (fullpath p) \<notin> ?P"
    using canon_fullpath_apart [OF assms(2,3,4), of sg cache_path]
    by (simp add: p_def)
  from command_put_frame [OF assms(1), of ?P]
  consider (stopped) "r \<noteq> 0" "frame ?P w w'"
    | (renamed) w2 where "frame ?P w w2" "put_rename p w2 = (r, w')"
    unfolding p_def by auto
  then have "trace w' = trace w @ steps_since w w'
    \<and> (\<forall>i < length (steps_since w w').
          fst (steps_since w w' ! i) \<noteq> Rename (tmpfilename p) (fullpath p) \<longrightarrow>
          (\<forall>q. q \<notin> ?P \<longrightarrow> snd (steps_since w w' ! i) q = files w q))
    \<and> (\<forall>i < length (steps_since w w').
          fst (steps_since w w' ! i) = Rename (tmpfilename p) (fullpath p) \<longrightarrow>
          Suc i = length (steps_since w w'))
    \<and> (r \<noteq> 0 \<longrightarrow> files w' (canon (fullpath p)) = files w (canon (fullpath p)))
    \<and> (r = 0 \<longrightarrow> steps_since w w' \<noteq> []
          \<and> fst (last (steps_since w w')) = Rename (tmpfilename p) (fullpath p))"
  proof cases
    case stopped
    from frame_steps [OF stopped(2)] obtain new where new: "trace w' = trace w @ new"
      "\<And>i. i < length new \<Longrightarrow> (\<forall>a b. fst (new ! i) \<noteq> Rename a b)"
      "\<And>i q. i < length new \<Longrightarrow> q \<notin> ?P \<Longrightarrow> snd (new ! i) q = files w q"
      "\<And>q. q \<notin> ?P \<Longrightarrow> files w' q = files w q"
      by blast
    have s: "steps_since w w' = new"
      by (simp add: steps_since_def new(1))
    show ?thesis
      unfolding s using new full stopped(1) by blast
  next
    case renamed
    from frame_steps [OF renamed(1)] obtain new where new: "trace w2 = trace w @ new"
      "\<And>i. i < length new \<Longrightarrow> (\<forall>a b. fst (new ! i) \<noteq> Rename a b)"
      "\<And>i q. i < length new \<Longrightarrow> q \<notin> ?P \<Longrightarrow> snd (new ! i) q = files w q"
      "\<And>q. q \<notin> ?P \<Longrightarrow> files w2 q = files w q"
      by blast
    from put_rename_step [OF renamed(2)]
    have t: "trace w' = trace w2 @ [(Rename (tmpfilename p) (fullpath p), files w')]"
      and u: "r \<noteq> 0 \<longrightarrow> files w' = files w2"
      by simp_all
    have s: "steps_since w w' = new @ [(Rename (tmpfilename p) (fullpath p), files w')]"
      by (simp add: steps_since_def new(1) t)
    have a: "trace w' = trace w @ steps_since w w'"
      by (simp add: s new(1) t)
    have b: "\<forall>q. q \<notin> ?P \<longrightarrow> snd (steps_since w w' ! i) q = files w q"
      if "i < length (steps_since w w')"
        "fst (steps_since w w' ! i) \<noteq> Rename (tmpfilename p) (fullpath p)" for i
    proof (cases "i < length new")
      case True
      with new(3) show ?thesis by (simp add: s nth_append)
    next
      case False
      with that(1) have "i = length new" by (simp add: s)
      with that(2) show ?thesis by (simp add: s)
    qed
    have c: "Suc i = length (steps_since w w')"
      if "i < length (steps_since w w')"
        "fst (steps_since w w' ! i) = Rename (tmpfilename p) (fullpath p)" for i
    proof (cases "i < length new")
      case True
      with new(2) [of i] that(2) show ?thesis by (simp add: s nth_append)
    next
      case False
      with that(1) show ?thesis by (simp add: s)
    qed
    have d: "r \<noteq> 0 \<longrightarrow> files w' (canon (fullpath p)) = files w (canon (fullpath p))"
      using u new(4) [OF full] by simp
    have e: "steps_since w w' \<noteq> []
        \<and> fst (last (steps_since w w')) = Rename (tmpfilename p) (fullpath p)"
      by (simp add: s)
    from a b c d e show ?thesis by blast
  qed
  then show ?thesis
    using full by blast
qed

text \<open>
  Claim C2, amended: for every identifier other than \<open>.\<close> and \<open>..\<close> (and not empty, as
  \<open>main\<close> ensures), in every run of \<open>put\<close>, whatever fails and wherever a read or a
  write is short, every step other than the \<open>rename\<close> of the temporary file onto the
  entry path leaves the entry path as it was before the run, and leaves every path but
  the temporary file and the shard directory as it was: a partial copy is under the
  temporary name only. That \<open>rename\<close> is the last step when it is made. When \<open>put\<close>
  fails the entry path is at the end as it was before the run; when \<open>put\<close> returns 0
  its last step is that \<open>rename\<close>, the source was a regular file, and the entry path
  holds a regular file with the whole content of the source.
\<close>

theorem command_put_entry_old_or_complete:
  assumes "command_put v sg cache_path cache_id source_file_path w = (r, w')"
    and "cache_id \<noteq> []" "cache_id \<noteq> ''.''" "cache_id \<noteq> ''..''"
  shows "let p = cache_id_to_path sg cache_path cache_id; steps = steps_since w w' in
      trace w' = trace w @ steps
      \<and> (\<forall>i < length steps.
            fst (steps ! i) \<noteq> Rename (tmpfilename p) (fullpath p) \<longrightarrow>
            snd (steps ! i) (canon (fullpath p)) = files w (canon (fullpath p))
            \<and> (\<forall>q. q \<noteq> canon (tmpfilename p) \<longrightarrow> q \<noteq> canon (dirfullpath p) \<longrightarrow> snd (steps ! i) q = files w q))
      \<and> (\<forall>i < length steps.
            fst (steps ! i) = Rename (tmpfilename p) (fullpath p) \<longrightarrow> Suc i = length steps)
      \<and> (r \<noteq> 0 \<longrightarrow> files w' (canon (fullpath p)) = files w (canon (fullpath p)))
      \<and> (r = 0 \<longrightarrow>
            steps \<noteq> [] \<and> fst (last steps) = Rename (tmpfilename p) (fullpath p)
            \<and> (\<exists>c. files w (canon source_file_path) = Some (File c)
                  \<and> files w' (canon (fullpath p)) = Some (File c)))"
proof (cases "r = 0")
  case True
  with assms(1) have "command_put v sg cache_path cache_id source_file_path w = (0, w')"
    by simp
  from command_put_success [OF this] command_put_steps [OF assms] True show ?thesis
    unfolding Let_def by simp
next
  case False
  with command_put_steps [OF assms] show ?thesis
    unfolding Let_def by simp
qed

lemma subdir_k1: "get_subdir_for_id ''k1'' = ''qwsb''"
proof -
  have "shard_accumulate bits_24_31 ''k1'' = 27441"
    by (simp add: shard_accumulate_def shard_step_def bits_24_31_def)
  then show ?thesis
    by (simp add: get_subdir_for_id_shard_name shard_name_def shard_letter_def char_of_def bit_0)
qed

lemma paths_k1:
  "cache_id_to_path sg ''/c'' ''k1'' =
     \<lparr>dirname = ''qwsb'', filename = ''k1'', relpath = ''qwsb/k1'',
      fullpath = ''/c/qwsb/k1'', dirfullpath = ''/c/qwsb''\<rparr>"
proof -
  have "encode_id sg ''k1'' = ''k1''"
    by (simp add: encode_id_concat encode_byte_def escaped_def char_as_int_def)
  then show ?thesis
    by (simp add: cache_id_to_path_def subdir_k1 str_join_path_two separator_def c_first_def
        Let_def)
qed

lemma tmpfilename_k1:
  "tmpfilename \<lparr>dirname = ''qwsb'', filename = ''k1'', relpath = ''qwsb/k1'',
      fullpath = ''/c/qwsb/k1'', dirfullpath = ''/c/qwsb''\<rparr> = ''/c/qwsb/.?tmpfile''"
  by (simp add: tmpfilename_def str_join_path_two separator_def c_first_def)

lemma interrupted_put_run:
  "fst (command_put v sg ''/c'' ''k1'' ''/src'' interrupted_put) = 5"
  "files (snd (command_put v sg ''/c'' ''k1'' ''/src'' interrupted_put)) (canon ''/c/qwsb/.?tmpfile'')
     = Some (File ''he'')"
  "map fst (trace (snd (command_put v sg ''/c'' ''k1'' ''/src'' interrupted_put)))
     = [Stat ''/c/qwsb'', Unlink ''/c/qwsb/.?tmpfile'', Open_rdonly ''/src'', Malloc,
        Open_creat_excl ''/c/qwsb/.?tmpfile'', Read_from, Write_to ''/c/qwsb/.?tmpfile'',
        Read_from, Close_from, Close_to ''/c/qwsb/.?tmpfile'']"
  by (simp_all add: command_put_def Let_def tmpfilename_k1 paths_k1 put_copy_def
      sys_stat_def sys_unlink_def sys_open_rdonly_def sys_malloc_def sys_open_creat_excl_def
      sys_read_def sys_write_def sys_close_from_def sys_close_to_def append_to_def
      next_fault_def called_def cp_def cp_loop.simps cp_write.simps buf_size_def
      interrupted_put_def RET_FILE_OPS_def canon_values)

lemma complete_put_run:
  "fst (command_put v sg ''/c'' ''k1'' ''/src'' root_and_source) = 0"
  "map fst (trace (snd (command_put v sg ''/c'' ''k1'' ''/src'' root_and_source)))
     = [Stat ''/c/qwsb'', Mkdir ''/c/qwsb'', Unlink ''/c/qwsb/.?tmpfile'', Open_rdonly ''/src'',
        Malloc, Open_creat_excl ''/c/qwsb/.?tmpfile'', Read_from,
        Write_to ''/c/qwsb/.?tmpfile'', Read_from, Close_to ''/c/qwsb/.?tmpfile'', Close_from,
        Rename ''/c/qwsb/.?tmpfile'' ''/c/qwsb/k1'']"
  by (simp_all add: command_put_def Let_def tmpfilename_k1 paths_k1 put_copy_def put_rename_def
      sys_stat_def sys_mkdir_def sys_unlink_def sys_open_rdonly_def sys_malloc_def
      sys_open_creat_excl_def sys_read_def sys_write_def sys_close_from_def sys_close_to_def
      sys_rename_def append_to_def next_fault_def called_def cp_def cp_loop.simps
      cp_write.simps buf_size_def root_and_source_def RET_FILE_OPS_def canon_values)

text \<open>
  Two runs for the identifier \<open>k1\<close>. In the first the copy fails after two of five
  bytes: \<open>put\<close> returns 5, the two bytes are under the temporary name, and the entry
  still holds its old content. In the second nothing fails: \<open>put\<close> returns 0 and the
  entry, which did not exist, holds the five bytes of the source.
\<close>

theorem command_put_entry_old_or_complete_witness:
  "fst (command_put Src_afilecache_c True ''/c'' ''k1'' ''/src'' interrupted_put) = 5
   \<and> files (snd (command_put Src_afilecache_c True ''/c'' ''k1'' ''/src'' interrupted_put))
        (canon ''/c/qwsb/.?tmpfile'') = Some (File ''he'')
   \<and> files (snd (command_put Src_afilecache_c True ''/c'' ''k1'' ''/src'' interrupted_put)) (canon ''/c/qwsb/k1'')
       = Some (File ''old'')
   \<and> fst (command_put Src_afilecache_c True ''/c'' ''k1'' ''/src'' root_and_source) = 0
   \<and> files root_and_source (canon ''/c/qwsb/k1'') = None
   \<and> files (snd (command_put Src_afilecache_c True ''/c'' ''k1'' ''/src'' root_and_source)) (canon ''/c/qwsb/k1'')
       = Some (File ''hello'')"
proof -
  have "command_put Src_afilecache_c True ''/c'' ''k1'' ''/src'' interrupted_put
      = (fst (command_put Src_afilecache_c True ''/c'' ''k1'' ''/src'' interrupted_put),
         snd (command_put Src_afilecache_c True ''/c'' ''k1'' ''/src'' interrupted_put))"
    by simp
  from command_put_entry_old_or_complete [OF this]
  have a: "files (snd (command_put Src_afilecache_c True ''/c'' ''k1'' ''/src'' interrupted_put)) (canon ''/c/qwsb/k1'')
      = files interrupted_put (canon ''/c/qwsb/k1'')"
    by (simp add: Let_def interrupted_put_run(1) paths_k1)
  have "command_put Src_afilecache_c True ''/c'' ''k1'' ''/src'' root_and_source
      = (fst (command_put Src_afilecache_c True ''/c'' ''k1'' ''/src'' root_and_source),
         snd (command_put Src_afilecache_c True ''/c'' ''k1'' ''/src'' root_and_source))"
    by simp
  from command_put_entry_old_or_complete [OF this]
  have "\<exists>c. files root_and_source (canon ''/src'') = Some (File c)
      \<and> files (snd (command_put Src_afilecache_c True ''/c'' ''k1'' ''/src'' root_and_source))
          (canon ''/c/qwsb/k1'') = Some (File c)"
    by (simp add: Let_def complete_put_run(1) paths_k1)
  then have b: "files (snd (command_put Src_afilecache_c True ''/c'' ''k1'' ''/src'' root_and_source))
          (canon ''/c/qwsb/k1'') = Some (File ''hello'')"
    by (auto simp add: root_and_source_def canon_values)
  from a b show ?thesis
    by (simp add: interrupted_put_run complete_put_run(1))
      (simp add: interrupted_put_def root_and_source_def canon_values)
qed

text \<open>
  Claim C2 as stated fails for the identifier \<open>.\<close>: the encoder leaves it as it is, so
  the entry path is \<open>/c/vbaa/.\<close>, which is the shard directory. Before the run there
  is nothing at the entry path; the second step of \<open>put\<close>, the \<open>mkdir\<close> of the shard
  directory, puts a directory there. The run ends with the failure code 5 (the
  \<open>rename\<close> onto a directory fails), and the entry path is not as it was.
\<close>

theorem command_put_dot_changes_entry_by_mkdir:
  "files root_and_source (canon (fullpath (cache_id_to_path True ''/c'' ''.''))) = None
   \<and> fst (steps_since root_and_source
             (snd (command_put Src_afilecache_c True ''/c'' ''.'' ''/src'' root_and_source)) ! 1)
       = Mkdir ''/c/vbaa''
   \<and> snd (steps_since root_and_source
             (snd (command_put Src_afilecache_c True ''/c'' ''.'' ''/src'' root_and_source)) ! 1)
         (canon (fullpath (cache_id_to_path True ''/c'' ''.''))) = Some Dir
   \<and> fst (command_put Src_afilecache_c True ''/c'' ''.'' ''/src'' root_and_source) = 5
   \<and> files (snd (command_put Src_afilecache_c True ''/c'' ''.'' ''/src'' root_and_source))
         (canon (fullpath (cache_id_to_path True ''/c'' ''.''))) = Some Dir"
  by (simp add: command_put_def Let_def tmpfilename_dot paths_dot put_copy_def put_rename_def
      sys_stat_def sys_mkdir_def sys_unlink_def sys_open_rdonly_def sys_malloc_def
      sys_open_creat_excl_def sys_read_def sys_write_def sys_close_from_def sys_close_to_def
      sys_rename_def append_to_def next_fault_def called_def cp_def cp_loop.simps
      cp_write.simps buf_size_def root_and_source_def RET_FILE_OPS_def canon_values
      canon_values_dot steps_since_def)

lemma enter_cases:
  "enter a dir f = dir \<or> enter a dir f = butlast dir \<or> enter a dir f = dir @ [f]"
  by (simp add: enter_def)

lemma canon_fullpath_not_tmpfilename:
  "canon (fullpath (cache_id_to_path sg cache_path cache_id))
     \<noteq> canon (tmpfilename (cache_id_to_path sg cache_path cache_id))"
proof -
  let ?p = "cache_id_to_path sg cache_path cache_id"
  let ?dir = "snd (canon (dirfullpath ?p))"
  let ?a = "fst (canon (dirfullpath ?p))"
  have "canon (dirfullpath ?p @ CHR ''/'' # encode_id sg cache_id)
      = (?a, enter ?a ?dir (encode_id sg cache_id))"
    by (rule canon_append) (rule dirfullpath_nonempty, rule encode_id_no_slash)
  then have f: "canon (fullpath ?p) = (?a, enter ?a ?dir (encode_id sg cache_id))"
    by (simp add: fullpath_eq)
  have "length (butlast ?dir) \<noteq> length (?dir @ [''.?tmpfile''])"
    by simp
  then have "butlast ?dir \<noteq> ?dir @ [''.?tmpfile'']"
    by metis
  then have "enter ?a ?dir (encode_id sg cache_id) \<noteq> ?dir @ [''.?tmpfile'']"
    using enter_cases [of ?a ?dir "encode_id sg cache_id"] encode_id_not_tmpfile [of sg cache_id]
    by auto
  then show ?thesis
    by (simp add: f canon_tmpfilename)
qed

text \<open>
  Claim C10: no encoded identifier contains a question mark, so none is the staging
  name \<open>.?tmpfile\<close>, and the entry path that \<open>command_put\<close> renames to is never the
  path of its temporary file, neither as a path name nor as a file.
\<close>

theorem encoded_id_is_never_the_staging_name:
  "CHR ''?'' \<notin> set (encode_id sg ident)
   \<and> encode_id sg ident \<noteq> ''.?tmpfile''
   \<and> fullpath (cache_id_to_path sg cache_path ident)
       \<noteq> tmpfilename (cache_id_to_path sg cache_path ident)
   \<and> canon (fullpath (cache_id_to_path sg cache_path ident))
       \<noteq> canon (tmpfilename (cache_id_to_path sg cache_path ident))"
  by (simp add: encode_id_no_question_mark encode_id_not_tmpfile fullpath_not_tmpfilename
      canon_fullpath_not_tmpfilename)

end
